theory Spec2Isabelle
  imports Complex_Main
begin

section \<open>Array values\<close>

text \<open>
  The arrays of the program hold IEEE floating-point numbers. A value is modelled as
  not-a-number (the missing sentinel \<open>np.nan\<close>), an infinity, or a finite number carried
  as a real: arithmetic on finite values is exact (rounding and overflow are not
  modelled, and the only zero is the positive one), the special values follow IEEE 754.
\<close>

datatype fl = NaN | NInf | Fin real | PInf

datatype error =
    IndexError        \<comment> \<open>an index outside an axis\<close>
  | DatesValueError   \<comment> \<open>\<open>ValueError('"dates" requires a full year of data.')\<close>\<close>
  | ShapeError        \<comment> \<open>NumPy's error for operands or masks whose shapes do not fit\<close>
  | LinAlgError       \<comment> \<open>\<open>np.linalg.inv\<close> on a singular matrix\<close>
  | ProviderError     \<comment> \<open>a failure raised inside the regression provider\<close>
  | ZeroDivisionError \<comment> \<open>a Python integer division by zero\<close>
  | TypeError         \<comment> \<open>an argument that is not an array of the expected kind\<close>

fun isnan :: "fl \<Rightarrow> bool" where
  "isnan NaN = True"
| "isnan _ = False"

fun fl_sign :: "fl \<Rightarrow> int" where
  "fl_sign NaN = 0"
| "fl_sign NInf = - 1"
| "fl_sign (Fin a) = (if a < 0 then - 1 else if a = 0 then 0 else 1)"
| "fl_sign PInf = 1"

definition inf_of_sign :: "int \<Rightarrow> fl" where
  "inf_of_sign s = (if s < 0 then NInf else if s = 0 then NaN else PInf)"

fun fl_neg :: "fl \<Rightarrow> fl" where
  "fl_neg NaN = NaN"
| "fl_neg NInf = PInf"
| "fl_neg (Fin a) = Fin (- a)"
| "fl_neg PInf = NInf"

fun fl_abs :: "fl \<Rightarrow> fl" where
  "fl_abs NaN = NaN"
| "fl_abs (Fin a) = Fin \<bar>a\<bar>"
| "fl_abs _ = PInf"

fun fl_add :: "fl \<Rightarrow> fl \<Rightarrow> fl" where
  "fl_add (Fin a) (Fin b) = Fin (a + b)"
| "fl_add NaN _ = NaN"
| "fl_add _ NaN = NaN"
| "fl_add PInf NInf = NaN"
| "fl_add NInf PInf = NaN"
| "fl_add PInf _ = PInf"
| "fl_add NInf _ = NInf"
| "fl_add _ PInf = PInf"
| "fl_add _ NInf = NInf"

definition fl_sub :: "fl \<Rightarrow> fl \<Rightarrow> fl" where
  "fl_sub a b = fl_add a (fl_neg b)"

fun fl_mult :: "fl \<Rightarrow> fl \<Rightarrow> fl" where
  "fl_mult (Fin a) (Fin b) = Fin (a * b)"
| "fl_mult NaN _ = NaN"
| "fl_mult _ NaN = NaN"
| "fl_mult a b = inf_of_sign (fl_sign a * fl_sign b)"

fun fl_div :: "fl \<Rightarrow> fl \<Rightarrow> fl" where
  "fl_div NaN _ = NaN"
| "fl_div _ NaN = NaN"
| "fl_div (Fin a) (Fin b) = (if b = 0 then inf_of_sign (fl_sign (Fin a)) else Fin (a / b))"
| "fl_div (Fin a) _ = Fin 0"
| "fl_div a (Fin b) = inf_of_sign (fl_sign a * (if b < 0 then - 1 else 1))"
| "fl_div _ _ = NaN"

fun fl_sqrt :: "fl \<Rightarrow> fl" where
  "fl_sqrt (Fin a) = (if a < 0 then NaN else Fin (sqrt a))"
| "fl_sqrt PInf = PInf"
| "fl_sqrt _ = NaN"

text \<open>Comparisons with not-a-number are false.\<close>

fun fl_less :: "fl \<Rightarrow> fl \<Rightarrow> bool" where
  "fl_less NaN _ = False"
| "fl_less _ NaN = False"
| "fl_less (Fin a) (Fin b) = (a < b)"
| "fl_less NInf b = (b \<noteq> NInf)"
| "fl_less a PInf = (a \<noteq> PInf)"
| "fl_less _ _ = False"

definition fl_greater :: "fl \<Rightarrow> fl \<Rightarrow> bool" where
  "fl_greater a b = fl_less b a"

text \<open>\<open>x ** 2\<close>.\<close>

definition fl_sq :: "fl \<Rightarrow> fl" where
  "fl_sq x = fl_mult x x"

text \<open>
  \<open>np.nanmean\<close> along one column: the sum of the entries that are not missing over their
  number; a column with no such entry gives not-a-number (0/0).
\<close>

definition nansum :: "fl list \<Rightarrow> fl" where
  "nansum xs = foldr fl_add (filter (\<lambda>v. \<not> isnan v) xs) (Fin 0)"

definition nancount :: "fl list \<Rightarrow> nat" where
  "nancount xs = length (filter (\<lambda>v. \<not> isnan v) xs)"

definition nanmean :: "fl list \<Rightarrow> fl" where
  "nanmean xs = fl_div (nansum xs) (Fin (real (nancount xs)))"

section \<open>Two-dimensional arrays\<close>

text \<open>
  The design matrix \<open>X[time, variable]\<close> is the list of its rows. An array indexed
  \<open>[time, pixel]\<close> or \<open>[coefficient, pixel]\<close> (\<open>y\<close>, \<open>residuals\<close>, \<open>beta\<close>) is the list of
  its pixel columns: \<open>a[:, c]\<close> is element \<open>c\<close>, \<open>a[i, :]\<close> takes entry \<open>i\<close> of every
  column, \<open>a[2:, :]\<close> drops two leading entries of every column, and a reduction along
  \<open>axis=0\<close> maps over the columns.
\<close>

type_synonym vec = "fl list"
type_synonym cols = "fl list list"

text \<open>\<open>a[i, :]\<close> for a non-negative \<open>i\<close>: every column must reach index \<open>i\<close>.\<close>

definition row_at :: "nat \<Rightarrow> cols \<Rightarrow> error + vec" where
  "row_at i a = (if \<forall>col \<in> set a. i < length col then Inr (map (\<lambda>col. col ! i) a)
                 else Inl IndexError)"

text \<open>\<open>a[-1, :]\<close>: the last entry of every column.\<close>

definition row_last :: "cols \<Rightarrow> error + vec" where
  "row_last a = (if \<forall>col \<in> set a. col \<noteq> [] then Inr (map last a) else Inl IndexError)"

section \<open>The stability predicate\<close>

text \<open>
  \<open>is_stable_ccdc(slope, residuals, threshold)\<close>. The element-wise operations on
  \<open>slope\<close>, \<open>rmse\<close> and the two rows need operands of one length; the model gives
  \<open>ShapeError\<close> where the lengths differ (NumPy would still stretch an operand of
  length one).
\<close>

definition is_stable_ccdc :: "vec \<Rightarrow> cols \<Rightarrow> fl \<Rightarrow> error + bool list" where
  "is_stable_ccdc slope residuals threshold =
     (let rmse = map fl_sqrt (map nanmean (map (map fl_sq) residuals)) in
      if length slope \<noteq> length rmse then Inl ShapeError
      else
        let slope_rmse = map2 (\<lambda>s r. fl_less (fl_div s r) threshold) slope rmse in
        case row_at 0 residuals of Inl e \<Rightarrow> Inl e
        | Inr r0 \<Rightarrow>
            let first = map2 (\<lambda>v r. fl_less (fl_div v r) threshold) r0 rmse in
            case row_last residuals of Inl e \<Rightarrow> Inl e
            | Inr rl \<Rightarrow>
                let last' = map2 (\<lambda>v r. fl_less (fl_div v r) threshold) rl rmse;
                    is_stable = map2 (\<and>) (map2 (\<and>) slope_rmse first) last'
                in Inr is_stable)"

section \<open>The outlier screeners\<close>

text \<open>
  The regression providers \<open>ols\<close> and \<open>rirls\<close> of \<open>nrt.fit_methods\<close> are parameters of
  the model: a provider takes the design matrix and the dependent columns and returns
  the coefficient columns and the residual columns, or raises (\<open>None\<close>); whatever it
  raises reaches the caller as \<open>ProviderError\<close>.
\<close>

type_synonym provider = "fl list list \<Rightarrow> cols \<Rightarrow> (cols \<times> cols) option"

definition fit :: "provider \<Rightarrow> fl list list \<Rightarrow> cols \<Rightarrow> error + (cols \<times> cols)" where
  "fit f X y = (case f X y of None \<Rightarrow> Inl ProviderError | Some r \<Rightarrow> Inr r)"



text \<open>
  \<open>y[mask] = np.nan\<close> with a boolean mask of the shape of \<open>y\<close>; NumPy refuses a mask of
  another shape.
\<close>

definition set_nan_where :: "bool list list \<Rightarrow> cols \<Rightarrow> error + cols" where
  "set_nan_where msk y =
     (if map length msk = map length y
      then Inr (map2 (map2 (\<lambda>m v. if m then NaN else v)) msk y)
      else Inl ShapeError)"



text \<open>
  \<open>ccdc_rirls(X, y, green, swir, scaling_factor)\<close>. The two bands are taken as they are
  after \<open>reshape\<close>, as arrays \<open>[time, pixel]\<close>. \<open>is_outlier\<close> is the element-wise
  \<open>np.logical_or\<close> of the two comparisons, which need residual arrays of one shape. The
  argument of the logging call divides two Python integers and is evaluated whatever the
  logging level: it raises \<open>ZeroDivisionError\<close> when \<open>green\<close> has no entry that is not
  missing.
\<close>

definition is_outlier_entry :: "fl \<Rightarrow> fl \<Rightarrow> fl \<Rightarrow> bool" where
  "is_outlier_entry scaling_factor g s =
     (fl_greater g (fl_mult (Fin (4 / 100)) scaling_factor) \<or>
      fl_less s (fl_mult (Fin (- (4 / 100))) scaling_factor))"

definition ccdc_rirls_is_outlier :: "cols \<Rightarrow> cols \<Rightarrow> fl \<Rightarrow> error + bool list list" where
  "ccdc_rirls_is_outlier g_residuals s_residuals scaling_factor =
     (if map length g_residuals = map length s_residuals
      then Inr (map2 (map2 (is_outlier_entry scaling_factor)) g_residuals s_residuals)
      else Inl ShapeError)"

text \<open>Lines 71 to 76: the contents of \<open>y\<close> after the masked assignment.\<close>

definition ccdc_rirls_masked ::
  "provider \<Rightarrow> fl list list \<Rightarrow> cols \<Rightarrow> cols \<Rightarrow> cols \<Rightarrow> fl \<Rightarrow> error + cols" where
  "ccdc_rirls_masked rirls X y green_flat swir_flat scaling_factor =
     (case fit rirls X green_flat of Inl e \<Rightarrow> Inl e
      | Inr (g_beta, g_residuals) \<Rightarrow>
     (case fit rirls X swir_flat of Inl e \<Rightarrow> Inl e
      | Inr (s_beta, s_residuals) \<Rightarrow>
     (case ccdc_rirls_is_outlier g_residuals s_residuals scaling_factor of Inl e \<Rightarrow> Inl e
      | Inr is_outlier \<Rightarrow> set_nan_where is_outlier y)))"

text \<open>Lines 78 to 80: the division in the argument of the logging call.\<close>

definition ccdc_rirls_log :: "cols \<Rightarrow> error + unit" where
  "ccdc_rirls_log green_flat =
     (if sum_list (map nancount green_flat) = 0 then Inl ZeroDivisionError else Inr ())"

definition ccdc_rirls ::
  "provider \<Rightarrow> fl list list \<Rightarrow> cols \<Rightarrow> cols \<Rightarrow> cols \<Rightarrow> fl \<Rightarrow> error + cols" where
  "ccdc_rirls rirls X y green_flat swir_flat scaling_factor =
     (case ccdc_rirls_masked rirls X y green_flat swir_flat scaling_factor of Inl e \<Rightarrow> Inl e
      | Inr y' \<Rightarrow>
          (case ccdc_rirls_log green_flat of Inl e \<Rightarrow> Inl e | Inr _ \<Rightarrow> Inr y'))"

section \<open>Masked selection and assignment\<close>

text \<open>
  \<open>a[mask]\<close> on one axis keeps the positions where the mask is true; \<open>a[mask] = b\<close>
  writes the entries of \<open>b\<close>, in order, to those positions. NumPy refuses a mask whose
  length is not that of the axis and a value whose shape is not that of the selection
  (a value of length one, which NumPy would stretch, is refused by the model too).
\<close>

definition select :: "bool list \<Rightarrow> 'a list \<Rightarrow> 'a list" where
  "select msk xs = map snd (filter fst (zip msk xs))"

text \<open>The position of column \<open>c\<close> among the selected ones.\<close>

definition rank :: "bool list \<Rightarrow> nat \<Rightarrow> nat" where
  "rank msk c = length (filter (\<lambda>b. b) (take c msk))"

fun scatter :: "bool list \<Rightarrow> 'a list \<Rightarrow> 'a list \<Rightarrow> 'a list" where
  "scatter (True # msk) (x # xs) (v # vs) = v # scatter msk xs vs"
| "scatter (False # msk) (x # xs) vs = x # scatter msk xs vs"
| "scatter msk xs vs = xs"

definition select_checked :: "bool list \<Rightarrow> 'a list \<Rightarrow> error + 'a list" where
  "select_checked msk xs = (if length msk = length xs then Inr (select msk xs) else Inl ShapeError)"

text \<open>\<open>v[mask] = w\<close> on a vector.\<close>

definition put :: "bool list \<Rightarrow> 'a list \<Rightarrow> 'a list \<Rightarrow> error + 'a list" where
  "put msk v w =
     (if length msk = length v \<and> length w = length (select msk v)
      then Inr (scatter msk v w) else Inl ShapeError)"

text \<open>\<open>a[:, mask] = b\<close>: the columns of \<open>b\<close> must have the length of the columns they replace.\<close>

definition put_cols :: "bool list \<Rightarrow> cols \<Rightarrow> cols \<Rightarrow> error + cols" where
  "put_cols msk a b =
     (if length msk = length a \<and> map length b = map length (select msk a)
      then Inr (scatter msk a b) else Inl ShapeError)"

text \<open>\<open>a[:, mask] = np.nan\<close>.\<close>

definition fill_nan_cols :: "bool list \<Rightarrow> cols \<Rightarrow> error + cols" where
  "fill_nan_cols msk a =
     (if length msk = length a
      then Inr (map2 (\<lambda>m col. if m then map (\<lambda>_. NaN) col else col) msk a)
      else Inl ShapeError)"

text \<open>
  \<open>a[-m:, mask] = b\<close>. The slice \<open>-m:\<close> starts \<open>m\<close> rows before the end, at the first row
  when the array has fewer than \<open>m\<close> rows, and also at the first row when \<open>m\<close> is 0
  (\<open>-0\<close> is \<open>0\<close>).
\<close>

definition tail_start :: "nat \<Rightarrow> nat \<Rightarrow> nat" where
  "tail_start m n = (if m = 0 then 0 else n - m)"

definition put_tail_cols :: "nat \<Rightarrow> bool list \<Rightarrow> cols \<Rightarrow> cols \<Rightarrow> error + cols" where
  "put_tail_cols m msk a b =
     (if length msk = length a \<and>
         map length b = map (\<lambda>col. length col - tail_start m (length col)) (select msk a)
      then Inr (scatter msk a
             (map2 (\<lambda>col v. take (tail_start m (length col)) col @ v) (select msk a) b))
      else Inl ShapeError)"

section \<open>The iterative stable-fit controller\<close>

text \<open>
  The number of columns of the design matrix, \<open>X.shape[1]\<close>. A matrix without rows is the
  empty list whatever its number of columns; the controller compares that number with
  counts that are all zero then, so the choice of 0 changes no result.
\<close>

definition ncols :: "'a list list \<Rightarrow> nat" where
  "ncols X = (case X of [] \<Rightarrow> 0 | r # _ \<Rightarrow> length r)"

text \<open>\<open>a.shape[0]\<close> of an array held as its columns.\<close>

definition nrows :: "cols \<Rightarrow> nat" where
  "nrows a = (case a of [] \<Rightarrow> 0 | col # _ \<Rightarrow> length col)"

text \<open>\<open>np.count_nonzero(~np.isnan(y), axis=0) > X.shape[1] * 1.5\<close>.\<close>

definition enough_data :: "nat \<Rightarrow> cols \<Rightarrow> bool list" where
  "enough_data p y = map (\<lambda>obs_count. real obs_count > real p * 1.5) (map nancount y)"

text \<open>\<open>~is_stable & enough\<close>.\<close>

definition active :: "bool list \<Rightarrow> bool list \<Rightarrow> bool list" where
  "active is_stable enough = map2 (\<lambda>s e. \<not> s \<and> e) is_stable enough"

definition bindE :: "error + 'a \<Rightarrow> ('a \<Rightarrow> error + 'b) \<Rightarrow> error + 'b" where
  "bindE m f = (case m of Inl e \<Rightarrow> Inl e | Inr v \<Rightarrow> f v)"

text \<open>\<open>dates[0]\<close>.\<close>

definition first_of :: "'a list \<Rightarrow> error + 'a" where
  "first_of xs = (case xs of [] \<Rightarrow> Inl IndexError | x # _ \<Rightarrow> Inr x)"

text \<open>
  The variables of the loop. \<open>dates\<close> holds the timestamps as integers in the unit of the
  array; the cast of a difference to whole years, \<open>delta.astype('timedelta64[Y]')\<close>, is
  the parameter \<open>years\<close> of the model (not-a-time values are not modelled).
\<close>

record state =
  X_sub :: "fl list list"
  y_sub :: cols
  dates :: "int list"
  is_stable :: "bool list"
  enough :: "bool list"
  beta :: cols
  residuals :: cols

datatype flow = Break | Continue

text \<open>
  One pass through the body of the \<open>while\<close> loop (lines 70 to 100); \<open>p\<close> is
  \<open>X.shape[1]\<close> of the design matrix of the call.
\<close>

definition loop_body ::
  "provider \<Rightarrow> (int \<Rightarrow> int) \<Rightarrow> nat \<Rightarrow> int \<Rightarrow> fl \<Rightarrow> state \<Rightarrow> error + (flow \<times> state)" where
  "loop_body ols years p last_date threshold st =
     bindE (fit ols (X_sub st) (y_sub st)) (\<lambda>(beta_sub, residuals_sub).
     bindE (put_cols (active (is_stable st) (enough st)) (beta st) beta_sub) (\<lambda>beta1.
     bindE (fill_nan_cols (active (is_stable st) (enough st)) (residuals st)) (\<lambda>residuals0.
     bindE (put_tail_cols (nrows (y_sub st)) (active (is_stable st) (enough st))
              residuals0 residuals_sub) (\<lambda>residuals1.
     bindE (row_at 1 beta_sub) (\<lambda>slope.
     bindE (is_stable_ccdc slope residuals_sub threshold) (\<lambda>is_stable_sub.
     bindE (put (active (is_stable st) (enough st)) (is_stable st) is_stable_sub) (\<lambda>is_stable1.
     bindE (select_checked (map Not is_stable_sub) (map (drop 2) (y_sub st))) (\<lambda>y_sub1.
     let X_sub1 = drop 2 (X_sub st);
         dates1 = drop 2 (dates st)
     in
     bindE (first_of dates1) (\<lambda>first_date.
     let delta = last_date - first_date;
         st1 = st\<lparr>X_sub := X_sub1, y_sub := y_sub1, dates := dates1,
                  is_stable := is_stable1, beta := beta1, residuals := residuals1\<rparr>
     in
     if years delta < 1 then Inr (Break, st1)
     else
       let enough_sub = enough_data p y_sub1 in
       bindE (put (active is_stable1 (enough st)) (enough st) enough_sub) (\<lambda>enough1.
       bindE (select_checked enough_sub y_sub1) (\<lambda>y_sub2.
       Inr (Continue, st1\<lparr>y_sub := y_sub2, enough := enough1\<rparr>))))))))))))"

text \<open>The condition of the loop, \<open>not np.all(is_stable | ~enough)\<close>.\<close>

definition all_done :: "state \<Rightarrow> bool" where
  "all_done st = list_all (\<lambda>b. b) (map2 (\<lambda>s e. s \<or> \<not> e) (is_stable st) (enough st))"

definition outputs :: "state \<Rightarrow> cols \<times> cols \<times> bool list" where
  "outputs st = (beta st, residuals st, is_stable st)"

lemma loop_body_dates:
  assumes "loop_body ols years p last_date threshold st = Inr (Continue, st')"
  shows "length (dates st') < length (dates st)"
proof -
  have "dates st' = drop 2 (dates st) \<and> drop 2 (dates st) \<noteq> []"
    using assms unfolding loop_body_def bindE_def first_of_def Let_def
    by (auto split: sum.splits prod.splits list.splits if_splits)
  then show ?thesis by (cases "dates st") auto
qed

function loop ::
  "provider \<Rightarrow> (int \<Rightarrow> int) \<Rightarrow> nat \<Rightarrow> int \<Rightarrow> fl \<Rightarrow> state \<Rightarrow> error + (cols \<times> cols \<times> bool list)" where
  "loop ols years p last_date threshold st =
     (if all_done st then Inr (outputs st)
      else case loop_body ols years p last_date threshold st of
             Inl e \<Rightarrow> Inl e
           | Inr (Break, st') \<Rightarrow> Inr (outputs st')
           | Inr (Continue, st') \<Rightarrow> loop ols years p last_date threshold st')"
  by pat_completeness auto
termination
  by (relation "measure (\<lambda>(ols, years, p, last_date, threshold, st). length (dates st))")
    (auto dest: loop_body_dates)

text \<open>\<open>ccdc_stable_fit(X, y, dates, threshold)\<close>.\<close>

definition init_state :: "fl list list \<Rightarrow> cols \<Rightarrow> int list \<Rightarrow> state" where
  "init_state X y ds =
     (let enough0 = enough_data (ncols X) y in
      \<lparr>X_sub = X, y_sub = select enough0 y, dates = ds,
       is_stable = replicate (length enough0) False, enough = enough0,
       beta = map (\<lambda>_. replicate (ncols X) NaN) y,
       residuals = map (\<lambda>col. replicate (length col) NaN) y\<rparr>)"

definition ccdc_stable_fit ::
  "provider \<Rightarrow> (int \<Rightarrow> int) \<Rightarrow> fl list list \<Rightarrow> cols \<Rightarrow> int list \<Rightarrow> fl
     \<Rightarrow> error + (cols \<times> cols \<times> bool list)" where
  "ccdc_stable_fit ols years X y ds threshold =
     bindE (first_of ds) (\<lambda>first_date.
     let last_date = last ds;
         delta = last_date - first_date
     in
     if years delta < 1 then Inl DatesValueError
     else loop ols years (ncols X) last_date threshold (init_state X y ds))"


text \<open>
  The shapes the loop keeps, for a call with \<open>n\<close> time steps, \<open>k\<close> pixel columns and
  \<open>p\<close> design columns: the output arrays keep the shape of the call, and a stable column
  keeps its \<open>enough\<close> flag.
\<close>

definition out_inv :: "nat \<Rightarrow> nat \<Rightarrow> nat \<Rightarrow> state \<Rightarrow> bool" where
  "out_inv n k p st \<longleftrightarrow>
     length (is_stable st) = k \<and> length (enough st) = k \<and>
     length (beta st) = k \<and> length (residuals st) = k \<and>
     (\<forall>col \<in> set (beta st). length col = p) \<and>
     (\<forall>col \<in> set (residuals st). length col = n) \<and>
     (\<forall>c < k. is_stable st ! c \<longrightarrow> enough st ! c)"

text \<open>
  The working window at the head of the loop: \<open>y_sub\<close> holds one column per active
  column, each as long as the window and with enough observations in it, and \<open>X_sub\<close>
  and \<open>dates\<close> are as long as the window.
\<close>

definition win_inv :: "nat \<Rightarrow> nat \<Rightarrow> state \<Rightarrow> bool" where
  "win_inv n p st \<longleftrightarrow>
     length (y_sub st) = length (filter (\<lambda>b. b) (active (is_stable st) (enough st))) \<and>
     (\<forall>col \<in> set (y_sub st). length col = length (dates st) \<and>
                                real (nancount col) > real p * 1.5) \<and>
     length (X_sub st) = length (dates st) \<and>
     (\<forall>r \<in> set (X_sub st). length r = p) \<and>
     length (dates st) \<le> n"

text \<open>
  One iteration of the loop as a relation between the states at the head of the loop,
  each with the way it was reached.
\<close>

definition iter_step ::
  "provider \<Rightarrow> (int \<Rightarrow> int) \<Rightarrow> nat \<Rightarrow> int \<Rightarrow> fl \<Rightarrow> flow \<times> state \<Rightarrow> flow \<times> state \<Rightarrow> bool" where
  "iter_step ols years p last_date threshold a b \<longleftrightarrow>
     fst a = Continue \<and> \<not> all_done (snd a) \<and>
     loop_body ols years p last_date threshold (snd a) = Inr b"

text \<open>
  The three classes of the active-set partition, read from the two masks of the loop:
  a column is stable when its \<open>is_stable\<close> flag is set, it has insufficient data when its
  \<open>enough\<close> flag is cleared, and it is still iterating when it is selected by
  \<open>~is_stable & enough\<close>.
\<close>

definition stable_col :: "state \<Rightarrow> nat \<Rightarrow> bool" where
  "stable_col st c = is_stable st ! c"

definition insufficient_col :: "state \<Rightarrow> nat \<Rightarrow> bool" where
  "insufficient_col st c = (\<not> enough st ! c)"

definition iterating_col :: "state \<Rightarrow> nat \<Rightarrow> bool" where
  "iterating_col st c = active (is_stable st) (enough st) ! c"

text \<open>
  The window at the head of the loop is the tail of the inputs: with \<open>d\<close> rows dropped
  so far, \<open>X_sub\<close> and \<open>dates\<close> are the inputs without their first \<open>d\<close> entries, and
  \<open>y_sub\<close> holds the active columns of \<open>y\<close> without their first \<open>d\<close> entries.
\<close>

definition tail_inv :: "fl list list \<Rightarrow> cols \<Rightarrow> int list \<Rightarrow> state \<Rightarrow> bool" where
  "tail_inv X y ds st \<longleftrightarrow>
     (let d = length ds - length (dates st) in
      X_sub st = drop d X \<and> dates st = drop d ds \<and>
      y_sub st = select (active (is_stable st) (enough st)) (map (drop d) y))"

text \<open>
  The inputs of a call as NumPy arrays have them: \<open>X\<close> is rectangular with one row per
  date, and every column of \<open>y\<close> has one entry per date.
\<close>

definition well_shaped :: "fl list list \<Rightarrow> cols \<Rightarrow> int list \<Rightarrow> bool" where
  "well_shaped X y ds \<longleftrightarrow>
     length X = length ds \<and> (\<forall>r \<in> set X. length r = ncols X) \<and>
     (\<forall>col \<in> set y. length col = length ds)"

text \<open>
  A provider for the examples: on a design matrix of zeros the least-squares
  coefficients (of least norm) are zero and the residuals are the observations.
\<close>

definition ols_zero :: provider where
  "ols_zero X y = Some (map (\<lambda>_. replicate (ncols X) (Fin 0)) y, y)"

section \<open>The recursive residual engine\<close>

text \<open>
  \<open>recresid(X, y, span)\<close>. The design matrix is the list of its rows and \<open>y\<close> a vector;
  \<open>np.dot\<close> of two vectors is the sum of the products of their entries, and
  \<open>np.linalg.inv\<close> is a parameter of the model, \<open>None\<close> where it raises \<open>LinAlgError\<close>.
\<close>

definition fl_dot :: "fl list \<Rightarrow> fl list \<Rightarrow> fl" where
  "fl_dot a b = foldr fl_add (map2 fl_mult a b) (Fin 0)"

text \<open>\<open>np.dot(M, v)\<close> for a matrix held as its rows.\<close>

definition fl_matvec :: "fl list list \<Rightarrow> fl list \<Rightarrow> fl list" where
  "fl_matvec M v = map (\<lambda>row. fl_dot row v) M"

text \<open>The rows of \<open>X0.T\<close>: the columns of \<open>X0\<close>.\<close>

definition columns :: "nat \<Rightarrow> 'a list list \<Rightarrow> 'a list list" where
  "columns nvars X0 = map (\<lambda>a. map (\<lambda>r. r ! a) X0) [0..<nvars]"

text \<open>\<open>np.dot(X0.T, X0)\<close> and \<open>np.dot(X0.T, y0)\<close>.\<close>

definition fl_gram :: "nat \<Rightarrow> fl list list \<Rightarrow> fl list list" where
  "fl_gram nvars X0 = map (\<lambda>ca. map (\<lambda>cb. fl_dot ca cb) (columns nvars X0)) (columns nvars X0)"

definition fl_XTY :: "nat \<Rightarrow> fl list list \<Rightarrow> fl list \<Rightarrow> fl list" where
  "fl_XTY nvars X0 y0 = map (\<lambda>ca. fl_dot ca y0) (columns nvars X0)"

text \<open>
  Python indexing with an integer: a negative index counts from the end, an index
  outside the axis raises \<open>IndexError\<close>.
\<close>

definition py_pos :: "nat \<Rightarrow> int \<Rightarrow> nat option" where
  "py_pos n i =
     (if 0 \<le> i \<and> i < int n then Some (nat i)
      else if i < 0 \<and> - int n \<le> i then Some (nat (int n + i))
      else None)"

definition py_index :: "'a list \<Rightarrow> int \<Rightarrow> error + 'a" where
  "py_index xs i =
     (case py_pos (length xs) i of None \<Rightarrow> Inl IndexError | Some k \<Rightarrow> Inr (xs ! k))"

definition py_update :: "'a list \<Rightarrow> int \<Rightarrow> 'a \<Rightarrow> error + 'a list" where
  "py_update xs i v =
     (case py_pos (length xs) i of None \<Rightarrow> Inl IndexError | Some k \<Rightarrow> Inr (xs[k := v]))"

text \<open>The variables that the loop of \<open>recresid\<close> updates.\<close>

record rstate =
  XTX_j :: "fl list list"
  beta_j :: "fl list"
  recresid_arr :: "fl list"
  recvar :: "fl list"

text \<open>
  Lines 136 to 152: the initial fit on the first \<open>span\<close> rows and its record at
  \<open>span - 1\<close>; \<open>spn\<close> is the argument \<open>span\<close>, taken to be non-negative.
\<close>

definition recresid_init ::
  "(fl list list \<Rightarrow> fl list list option) \<Rightarrow> fl list list \<Rightarrow> fl list \<Rightarrow> nat \<Rightarrow> error + rstate" where
  "recresid_init inv_fn X y spn =
     (let nobs = length X; nvars = ncols X;
          X0 = take spn X; y0 = take spn y
      in case inv_fn (fl_gram nvars X0) of
           None \<Rightarrow> Inl LinAlgError
         | Some XTX \<Rightarrow>
             if length y0 \<noteq> length X0 then Inl ShapeError
             else
               let XTY = fl_XTY nvars X0 y0;
                   b = fl_matvec XTX XTY
               in
               bindE (py_index X (int spn - 1)) (\<lambda>x.
               bindE (py_index y (int spn - 1)) (\<lambda>y_s.
               let yhat_j = fl_dot x b in
               bindE (py_update (replicate nobs NaN) (int spn - 1) (fl_sub y_s yhat_j)) (\<lambda>rr.
               bindE (py_update (replicate nobs NaN) (int spn - 1)
                        (fl_add (Fin 1) (fl_dot x (fl_matvec XTX x)))) (\<lambda>rv.
               Inr \<lparr>XTX_j = XTX, beta_j = b, recresid_arr = rr, recvar = rv\<rparr>)))))"

text \<open>The body of the loop for row \<open>j\<close> (lines 154 to 167); \<open>range\<close> keeps \<open>j\<close> below \<open>nobs\<close>.\<close>

definition recresid_step :: "fl list list \<Rightarrow> fl list \<Rightarrow> nat \<Rightarrow> rstate \<Rightarrow> error + rstate" where
  "recresid_step X y j st =
     (let x_j = X ! j in
      bindE (py_index y (int j)) (\<lambda>y_j.
      let resid_j = fl_sub y_j (fl_dot x_j (beta_j st));
          XTXx_j = fl_matvec (XTX_j st) x_j;
          f_t = fl_add (Fin 1) (fl_dot x_j XTXx_j);
          XTX' = map2 (\<lambda>row ga. map2 (\<lambda>m gb. fl_sub m (fl_div (fl_mult ga gb) f_t)) row XTXx_j)
                   (XTX_j st) XTXx_j;
          beta' = map2 (\<lambda>b ga. fl_add b (fl_div (fl_mult ga resid_j) f_t)) (beta_j st) XTXx_j
      in Inr \<lparr>XTX_j = XTX', beta_j = beta', recresid_arr = (recresid_arr st)[j := resid_j],
              recvar = (recvar st)[j := f_t]\<rparr>))"

fun recresid_rows :: "fl list list \<Rightarrow> fl list \<Rightarrow> nat list \<Rightarrow> rstate \<Rightarrow> error + rstate" where
  "recresid_rows X y [] st = Inr st"
| "recresid_rows X y (j # js) st = bindE (recresid_step X y j st) (recresid_rows X y js)"

text \<open>The variables after row \<open>j\<close> has been processed (after the initial fit when \<open>j < span\<close>).\<close>

definition recresid_upto ::
  "(fl list list \<Rightarrow> fl list list option) \<Rightarrow> fl list list \<Rightarrow> fl list \<Rightarrow> nat \<Rightarrow> nat \<Rightarrow> error + rstate" where
  "recresid_upto inv_fn X y spn j =
     bindE (recresid_init inv_fn X y spn) (recresid_rows X y [spn..<Suc j])"

definition recresid ::
  "(fl list list \<Rightarrow> fl list list option) \<Rightarrow> fl list list \<Rightarrow> fl list \<Rightarrow> nat \<Rightarrow> error + fl list" where
  "recresid inv_fn X y spn =
     bindE (recresid_init inv_fn X y spn) (\<lambda>st0.
     bindE (recresid_rows X y [spn..<length X] st0) (\<lambda>st.
     Inr (map2 (\<lambda>r v. fl_div r (fl_sqrt v)) (recresid_arr st) (recvar st))))"

text \<open>
  An inverse for the examples: the inverse of a finite two-by-two matrix by its adjugate,
  \<open>None\<close> for a singular matrix and for any other argument.
\<close>

fun inv2 :: "fl list list \<Rightarrow> fl list list option" where
  "inv2 [[Fin a, Fin b], [Fin c, Fin d]] =
     (if a * d - b * c = 0 then None
      else Some [[Fin (d / (a * d - b * c)), Fin (- b / (a * d - b * c))],
                 [Fin (- c / (a * d - b * c)), Fin (a / (a * d - b * c))]])"
| "inv2 _ = None"

section \<open>Batch least squares over the reals\<close>

text \<open>The reference against which the recursive engine is compared: vectors and matrices of reals,
  the Gram matrix and the moment vector of a block of rows, the normal equations and the sum of
  squared residuals. The rank-one update is the update of \<open>recresid_step\<close> on reals.\<close>

definition rdot :: "real list \<Rightarrow> real list \<Rightarrow> real" where
  "rdot a b = sum_list (map2 (*) a b)"

definition rmv :: "real list list \<Rightarrow> real list \<Rightarrow> real list" where
  "rmv M v = map (\<lambda>row. rdot row v) M"

definition vadd :: "real list \<Rightarrow> real list \<Rightarrow> real list" where
  "vadd a b = map2 (+) a b"

definition smul :: "real \<Rightarrow> real list \<Rightarrow> real list" where
  "smul k a = map ((*) k) a"

fun gram_ap :: "real list list \<Rightarrow> real list \<Rightarrow> real list" where
  "gram_ap [] v = map (\<lambda>_. 0) v"
| "gram_ap (x # Xs) v = vadd (smul (rdot x v) x) (gram_ap Xs v)"

fun xty :: "nat \<Rightarrow> real list list \<Rightarrow> real list \<Rightarrow> real list" where
  "xty p (x # Xs) (y # ys) = vadd (smul y x) (xty p Xs ys)"
| "xty p _ _ = replicate p 0"

definition is_mat :: "nat \<Rightarrow> real list list \<Rightarrow> bool" where
  "is_mat p M \<longleftrightarrow> length M = p \<and> (\<forall>row \<in> set M. length row = p)"

definition rstep :: "real list \<Rightarrow> real \<Rightarrow> real list list \<times> real list \<Rightarrow> real list list \<times> real list" where
  "rstep x yj Mb =
     (let M = fst Mb; b = snd Mb;
          r = yj - rdot x b;
          g = rmv M x;
          f = 1 + rdot x g
      in (map2 (\<lambda>row ga. map2 (\<lambda>m gb. m - ga * gb / f) row g) M g,
          map2 (\<lambda>bi ga. bi + ga * r / f) b g))"

definition rinv :: "nat \<Rightarrow> real list list \<Rightarrow> real list \<Rightarrow> real list list \<times> real list \<Rightarrow> bool" where
  "rinv p Xs ys Mb \<longleftrightarrow>
     is_mat p (fst Mb) \<and> length (snd Mb) = p \<and>
     (\<forall>v. length v = p \<longrightarrow>
        rmv (fst Mb) (gram_ap Xs v) = v \<and> gram_ap Xs (rmv (fst Mb) v) = v) \<and>
     snd Mb = rmv (fst Mb) (xty p Xs ys)"

definition rgram :: "nat \<Rightarrow> real list list \<Rightarrow> real list list" where
  "rgram p Xs = map (\<lambda>ca. map (\<lambda>cb. rdot ca cb) (columns p Xs)) (columns p Xs)"

definition rXTY :: "nat \<Rightarrow> real list list \<Rightarrow> real list \<Rightarrow> real list" where
  "rXTY p Xs ys = map (\<lambda>ca. rdot ca ys) (columns p Xs)"

text \<open>The two-sided inverse of a matrix, by its action on vectors.\<close>

definition is_inverse :: "nat \<Rightarrow> real list list \<Rightarrow> real list list \<Rightarrow> bool" where
  "is_inverse p M G \<longleftrightarrow>
     is_mat p M \<and> (\<forall>v. length v = p \<longrightarrow> rmv M (rmv G v) = v \<and> rmv G (rmv M v) = v)"

text \<open>The sum of the squared residuals of a coefficient vector.\<close>

definition sse :: "real list list \<Rightarrow> real list \<Rightarrow> real list \<Rightarrow> real" where
  "sse Xs ys b = sum_list (map2 (\<lambda>x y. (y - rdot x b)\<^sup>2) Xs ys)"

fun rrows :: "real list list \<Rightarrow> real list \<Rightarrow> nat list \<Rightarrow> real list list \<times> real list
    \<Rightarrow> real list list \<times> real list" where
  "rrows X y [] s = s"
| "rrows X y (j # js) s = rrows X y js (rstep (X ! j) (y ! j) s)"

section \<open>Calls on caller-owned buffers\<close>








text \<open>
  The data of the example call: six yearly dates, a design matrix of zeros with two
  columns, and three pixels; \<open>ex_st1\<close> and \<open>ex_st2\<close> are the states at the head of the
  loop after the first and after the second iteration.
\<close>

definition ex_X :: "fl list list" where
  "ex_X = [[Fin 0, Fin 0], [Fin 0, Fin 0], [Fin 0, Fin 0], [Fin 0, Fin 0], [Fin 0, Fin 0],
           [Fin 0, Fin 0]]"

definition ex_y :: cols where
  "ex_y = [[Fin 4, Fin 2, Fin 1, Fin 1, Fin 1, Fin 1], [Fin 1, Fin 1, Fin 1, Fin 1, Fin 1, Fin 1],
           [NaN, NaN, NaN, NaN, Fin 1, Fin 1]]"

definition ex_ds :: "int list" where
  "ex_ds = [2000, 2001, 2002, 2003, 2004, 2005]"

definition ex_st1 :: state where
  "ex_st1 = \<lparr>X_sub = [[Fin 0, Fin 0], [Fin 0, Fin 0], [Fin 0, Fin 0], [Fin 0, Fin 0]],
            y_sub = [[Fin 1, Fin 1, Fin 1, Fin 1]], dates = [2002, 2003, 2004, 2005],
            is_stable = [False, True, False], enough = [True, True, False],
            beta = [[Fin 0, Fin 0], [Fin 0, Fin 0], [NaN, NaN]],
            residuals = [[Fin 4, Fin 2, Fin 1, Fin 1, Fin 1, Fin 1],
                         [Fin 1, Fin 1, Fin 1, Fin 1, Fin 1, Fin 1],
                         [NaN, NaN, NaN, NaN, NaN, NaN]]\<rparr>"

definition ex_st2 :: state where
  "ex_st2 = \<lparr>X_sub = [[Fin 0, Fin 0], [Fin 0, Fin 0]],
            y_sub = [], dates = [2004, 2005],
            is_stable = [True, True, False], enough = [True, True, False],
            beta = [[Fin 0, Fin 0], [Fin 0, Fin 0], [NaN, NaN]],
            residuals = [[NaN, NaN, Fin 1, Fin 1, Fin 1, Fin 1],
                         [Fin 1, Fin 1, Fin 1, Fin 1, Fin 1, Fin 1],
                         [NaN, NaN, NaN, NaN, NaN, NaN]]\<rparr>"

section \<open>Properties of the stability predicate\<close>

lemma nansum_Fin: "nansum (map Fin rs) = Fin (sum_list rs)"
  unfolding nansum_def by (induction rs) simp_all

lemma nancount_Fin: "nancount (map Fin rs) = length rs"
  unfolding nancount_def by (induction rs) simp_all

lemma rmse_Fin:
  assumes "rs \<noteq> []"
  shows "fl_sqrt (nanmean (map fl_sq (map Fin rs)))
           = Fin (sqrt (sum_list (map (\<lambda>r. r * r) rs) / real (length rs)))"
proof -
  define qs where "qs = map (\<lambda>r. r * r) rs"
  have sq: "map fl_sq (map Fin rs) = map Fin qs"
    by (simp add: fl_sq_def qs_def)
  have nonneg: "0 \<le> sum_list qs"
    unfolding qs_def by (rule sum_list_nonneg) auto
  have len: "length qs = length rs" "real (length rs) \<noteq> 0"
    using assms by (simp_all add: qs_def)
  have "nanmean (map Fin qs) = Fin (sum_list qs / real (length rs))"
    unfolding nanmean_def nansum_Fin nancount_Fin using len by simp
  moreover have "0 \<le> sum_list qs / real (length rs)"
    using nonneg by simp
  ultimately show ?thesis unfolding sq by (simp add: qs_def)
qed

lemma map2_nth:
  "c < length xs \<Longrightarrow> length ys = length xs \<Longrightarrow> map2 f xs ys ! c = f (xs ! c) (ys ! c)"
  by simp

text \<open>
  Claim C1, as the code has it. For a slope vector with one entry per column and a
  residual array with at least one row, \<open>is_stable_ccdc\<close> returns one flag per column,
  and the flag of a column is the conjunction of three signed comparisons:
  slope / rmse < threshold, (residual in the first row) / rmse < threshold and
  (residual in the last row) / rmse < threshold, where rmse is the square root of the
  mean of the squared residuals of the column that are not missing. No absolute value is
  taken, the rows are the first and the last of the array whether or not they hold a
  missing entry, and a comparison with a missing value is false.
\<close>

theorem is_stable_ccdc_columns:
  assumes "length slope = length resid" and "\<forall>col \<in> set resid. col \<noteq> []"
  shows "\<exists>flags. is_stable_ccdc slope resid threshold = Inr flags \<and>
           length flags = length resid \<and>
           (\<forall>c < length resid. flags ! c =
              (let rmse = fl_sqrt (nanmean (map fl_sq (resid ! c))) in
               fl_less (fl_div (slope ! c) rmse) threshold \<and>
               fl_less (fl_div (resid ! c ! 0) rmse) threshold \<and>
               fl_less (fl_div (last (resid ! c)) rmse) threshold))"
proof -
  have r0: "row_at 0 resid = Inr (map (\<lambda>col. col ! 0) resid)"
    using assms(2) by (auto simp: row_at_def)
  have rl: "row_last resid = Inr (map last resid)"
    using assms(2) by (simp add: row_last_def)
  show ?thesis
    unfolding is_stable_ccdc_def Let_def r0 rl using assms(1)
    by simp
qed

theorem is_stable_ccdc_columns_witness:
  "\<exists>flags. is_stable_ccdc [Fin (- 10), Fin 1] [[Fin 1, Fin 1], [NaN, Fin 2]] (Fin 3) = Inr flags \<and>
     length flags = 2 \<and> flags ! 0 \<and> \<not> flags ! 1"
proof -
  let ?res = "[[Fin 1, Fin 1], [NaN, Fin 2]]"
  obtain flags where f: "is_stable_ccdc [Fin (- 10), Fin 1] ?res (Fin 3) = Inr flags"
      "length flags = length ?res"
    and c: "\<forall>c < length ?res. flags ! c =
              (let rmse = fl_sqrt (nanmean (map fl_sq (?res ! c))) in
               fl_less (fl_div ([Fin (- 10), Fin 1] ! c) rmse) (Fin 3) \<and>
               fl_less (fl_div (?res ! c ! 0) rmse) (Fin 3) \<and>
               fl_less (fl_div (last (?res ! c)) rmse) (Fin 3))"
    using is_stable_ccdc_columns [of "[Fin (- 10), Fin 1]" ?res "Fin 3"] by auto
  from c have "flags ! 0"
    by (simp add: nanmean_def nansum_def nancount_def fl_sq_def)
  moreover from c have "\<not> flags ! 1"
    by (simp add: nanmean_def nansum_def nancount_def fl_sq_def)
  ultimately show ?thesis using f by simp
qed

text \<open>
  Claim C1 as stated fails twice. A column of residuals 1, 1 (rmse 1) with slope -10 and
  threshold 3 is marked stable although |slope| / rmse = 10 is not below 3. A column
  whose first row is missing, then 1, 1, with slope 0 is marked not stable although the
  slope and the residuals at its first and last valid rows all pass.
\<close>

theorem is_stable_ccdc_counterexample:
  "is_stable_ccdc [Fin (- 10)] [[Fin 1, Fin 1]] (Fin 3) = Inr [True] \<and>
   \<not> (\<bar>- 10\<bar> / sqrt ((1 * 1 + 1 * 1) / 2) < (3::real)) \<and>
   is_stable_ccdc [Fin 0] [[NaN, Fin 1, Fin 1]] (Fin 3) = Inr [False] \<and>
   \<bar>0\<bar> / sqrt ((1 * 1 + 1 * 1) / 2) < (3::real) \<and>
   \<bar>1\<bar> / sqrt ((1 * 1 + 1 * 1) / 2) < (3::real)"
  by (simp add: is_stable_ccdc_def row_at_def row_last_def nanmean_def nansum_def
      nancount_def fl_sq_def)

section \<open>Masked assignment and the body of the loop\<close>

lemma length_scatter [simp]: "length (scatter msk xs vs) = length xs"
  by (induction msk xs vs rule: scatter.induct) simp_all

lemma select_Nil [simp]: "select [] xs = []" "select msk [] = []"
  by (simp_all add: select_def)

lemma select_Cons [simp]:
  "select (b # msk) (x # xs) = (if b then x # select msk xs else select msk xs)"
  by (simp add: select_def)

lemma rank_0 [simp]: "rank msk 0 = 0"
  by (simp add: rank_def)

lemma rank_Suc [simp]: "rank (b # msk) (Suc c) = (if b then Suc (rank msk c) else rank msk c)"
  by (simp add: rank_def)

lemma length_select: "length msk = length xs \<Longrightarrow> length (select msk xs) = length (filter (\<lambda>b. b) msk)"
  by (induction msk xs rule: list_induct2) simp_all

lemma set_select: "set (select msk xs) \<subseteq> set xs"
  unfolding select_def by (auto dest: set_zip_rightD)

lemma scatter_nth_False:
  "length msk = length xs \<Longrightarrow> c < length xs \<Longrightarrow> \<not> msk ! c \<Longrightarrow> scatter msk xs vs ! c = xs ! c"
proof (induction msk xs vs arbitrary: c rule: scatter.induct)
  case (1 msk x xs v vs)
  then show ?case by (cases c) simp_all
next
  case (2 msk x xs vs)
  then show ?case by (cases c) simp_all
qed simp_all

lemma scatter_nth_True:
  "length msk = length xs \<Longrightarrow> length vs = length (filter (\<lambda>b. b) msk) \<Longrightarrow> c < length xs \<Longrightarrow> msk ! c
     \<Longrightarrow> scatter msk xs vs ! c = vs ! rank msk c"
proof (induction msk xs vs arbitrary: c rule: scatter.induct)
  case (1 msk x xs v vs)
  then show ?case by (cases c) simp_all
next
  case (2 msk x xs vs)
  then show ?case by (cases c) simp_all
qed simp_all

lemma select_nth:
  "length msk = length xs \<Longrightarrow> c < length xs \<Longrightarrow> msk ! c
     \<Longrightarrow> rank msk c < length (select msk xs) \<and> select msk xs ! rank msk c = xs ! c"
proof (induction msk xs arbitrary: c rule: list_induct2)
  case Nil
  then show ?case by simp
next
  case (Cons b msk x xs)
  then show ?case by (cases c) auto
qed

lemma select_scatter:
  "length msk = length xs \<Longrightarrow> length vs = length (filter (\<lambda>b. b) msk) \<Longrightarrow> select msk (scatter msk xs vs) = vs"
  by (induction msk xs vs rule: scatter.induct) simp_all

lemma bindE_Inr: "bindE m f = Inr r \<longleftrightarrow> (\<exists>v. m = Inr v \<and> f v = Inr r)"
  by (cases m) (simp_all add: bindE_def)

lemma loop_bodyE:
  assumes "loop_body ols years p last_date threshold st = Inr (f, st')"
  obtains beta_sub residuals_sub residuals0 slope is_stable_sub y_sub1 first_date where
    "ols (X_sub st) (y_sub st) = Some (beta_sub, residuals_sub)"
    "put_cols (active (is_stable st) (enough st)) (beta st) beta_sub = Inr (beta st')"
    "fill_nan_cols (active (is_stable st) (enough st)) (residuals st) = Inr residuals0"
    "put_tail_cols (nrows (y_sub st)) (active (is_stable st) (enough st)) residuals0 residuals_sub
       = Inr (residuals st')"
    "row_at 1 beta_sub = Inr slope"
    "is_stable_ccdc slope residuals_sub threshold = Inr is_stable_sub"
    "put (active (is_stable st) (enough st)) (is_stable st) is_stable_sub = Inr (is_stable st')"
    "select_checked (map Not is_stable_sub) (map (drop 2) (y_sub st)) = Inr y_sub1"
    "X_sub st' = drop 2 (X_sub st)" "dates st' = drop 2 (dates st)"
    "first_of (dates st') = Inr first_date"
    "f = Break \<Longrightarrow> years (last_date - first_date) < 1 \<and> enough st' = enough st \<and> y_sub st' = y_sub1"
    "f = Continue \<Longrightarrow> \<not> years (last_date - first_date) < 1 \<and>
       put (active (is_stable st') (enough st)) (enough st) (enough_data p y_sub1) = Inr (enough st') \<and>
       select_checked (enough_data p y_sub1) y_sub1 = Inr (y_sub st')"
  using assms unfolding loop_body_def fit_def Let_def
  by (auto simp: bindE_Inr split: option.splits if_splits)

lemma put_Inr:
  assumes "put msk v w = Inr v'"
  shows "length msk = length v" "length w = length (filter (\<lambda>b. b) msk)" "v' = scatter msk v w"
  using assms by (auto simp: put_def length_select split: if_splits)

lemma put_cols_Inr:
  assumes "put_cols msk a b = Inr a'"
  shows "length msk = length a" "length b = length (filter (\<lambda>b. b) msk)"
    "map length b = map length (select msk a)" "a' = scatter msk a b"
proof -
  from assms have m: "length msk = length a" and l: "map length b = map length (select msk a)"
    and a': "a' = scatter msk a b"
    by (auto simp: put_cols_def split: if_splits)
  from l have "length b = length (select msk a)" by (metis length_map)
  with m show "length msk = length a" "length b = length (filter (\<lambda>b. b) msk)"
    "map length b = map length (select msk a)" "a' = scatter msk a b"
    using l a' by (simp_all add: length_select)
qed

lemma fill_nan_cols_Inr:
  assumes "fill_nan_cols msk a = Inr a'"
  shows "length msk = length a" "length a' = length a"
    "\<And>c. c < length a \<Longrightarrow> a' ! c = (if msk ! c then map (\<lambda>_. NaN) (a ! c) else a ! c)"
  using assms by (auto simp: fill_nan_cols_def split: if_splits)

lemma put_tail_cols_Inr:
  assumes "put_tail_cols m msk a b = Inr a'"
  shows "length msk = length a" "length b = length (filter (\<lambda>b. b) msk)"
    "map length b = map (\<lambda>col. length col - tail_start m (length col)) (select msk a)"
    "a' = scatter msk a (map2 (\<lambda>col v. take (tail_start m (length col)) col @ v) (select msk a) b)"
proof -
  from assms have m: "length msk = length a"
    and l: "map length b = map (\<lambda>col. length col - tail_start m (length col)) (select msk a)"
    and a': "a' = scatter msk a (map2 (\<lambda>col v. take (tail_start m (length col)) col @ v) (select msk a) b)"
    by (auto simp: put_tail_cols_def split: if_splits)
  from l have "length b = length (select msk a)" by (metis length_map)
  with m show "length msk = length a" "length b = length (filter (\<lambda>b. b) msk)"
    "map length b = map (\<lambda>col. length col - tail_start m (length col)) (select msk a)"
    "a' = scatter msk a (map2 (\<lambda>col v. take (tail_start m (length col)) col @ v) (select msk a) b)"
    using l a' by (simp_all add: length_select)
qed

lemma select_checked_Inr:
  assumes "select_checked msk xs = Inr ys"
  shows "length msk = length xs" "ys = select msk xs"
  using assms by (auto simp: select_checked_def split: if_splits)

lemma length_active [simp]: "length (active s e) = min (length s) (length e)"
  by (simp add: active_def)

lemma active_nth:
  "c < length s \<Longrightarrow> c < length e \<Longrightarrow> active s e ! c = (\<not> s ! c \<and> e ! c)"
  by (simp add: active_def)

text \<open>Frame: one pass changes nothing in a column that is not active.\<close>

lemma body_frame:
  assumes b: "loop_body ols years p last_date threshold st = Inr (f, st')"
    and k: "length (is_stable st) = k" "length (enough st) = k" "c < k"
    and na: "\<not> active (is_stable st) (enough st) ! c"
  shows "is_stable st' ! c = is_stable st ! c" "enough st' ! c = enough st ! c"
    "beta st' ! c = beta st ! c" "residuals st' ! c = residuals st ! c"
proof -
  let ?A = "active (is_stable st) (enough st)"
  from b obtain beta_sub residuals_sub residuals0 slope is_stable_sub y_sub1 first_date where
    pb: "put_cols ?A (beta st) beta_sub = Inr (beta st')"
    and fr: "fill_nan_cols ?A (residuals st) = Inr residuals0"
    and pr: "put_tail_cols (nrows (y_sub st)) ?A residuals0 residuals_sub = Inr (residuals st')"
    and ps: "put ?A (is_stable st) is_stable_sub = Inr (is_stable st')"
    and br: "f = Break \<Longrightarrow> enough st' = enough st"
    and co: "f = Continue \<Longrightarrow>
       put (active (is_stable st') (enough st)) (enough st) (enough_data p y_sub1) = Inr (enough st')"
    by (rule loop_bodyE) blast
  have lA: "length ?A = k" using k by simp
  show s: "is_stable st' ! c = is_stable st ! c"
    using put_Inr[OF ps] lA k na by (simp add: scatter_nth_False)
  have ls': "length (is_stable st') = k"
    using put_Inr(3)[OF ps] k by simp
  show "beta st' ! c = beta st ! c"
    using put_cols_Inr[OF pb] lA k na by (simp add: scatter_nth_False)
  have "residuals0 ! c = residuals st ! c"
    using fill_nan_cols_Inr[OF fr] lA k na by simp
  moreover have "residuals st' ! c = residuals0 ! c"
    using put_tail_cols_Inr(1,4)[OF pr] lA k na by (simp add: scatter_nth_False)
  ultimately show "residuals st' ! c = residuals st ! c" by simp
  show "enough st' ! c = enough st ! c"
  proof (cases f)
    case Break
    then show ?thesis using br by simp
  next
    case Continue
    have "\<not> active (is_stable st') (enough st) ! c"
      using na s k ls' by (simp add: active_nth)
    then show ?thesis
      using put_Inr[OF co[OF Continue]] k by (simp add: scatter_nth_False)
  qed
qed

lemma set_scatter: "set (scatter msk xs vs) \<subseteq> set xs \<union> set vs"
  by (induction msk xs vs rule: scatter.induct) auto

lemma map_length_const:
  assumes "map length b = map length a" "\<forall>x \<in> set a. length x = p"
  shows "\<forall>x \<in> set b. length x = p"
proof
  fix x assume "x \<in> set b"
  then have "length x \<in> set (map length b)" by simp
  then have "length x \<in> set (map length a)" using assms(1) by simp
  then show "length x = p" using assms(2) by auto
qed

lemma tail_start_le: "tail_start m n \<le> n"
  by (simp add: tail_start_def)

lemma body_out_inv:
  assumes b: "loop_body ols years p last_date threshold st = Inr (f, st')"
    and inv: "out_inv n k p st"
  shows "out_inv n k p st'"
proof -
  let ?A = "active (is_stable st) (enough st)"
  from inv have k: "length (is_stable st) = k" "length (enough st) = k"
    "length (beta st) = k" "length (residuals st) = k"
    and bp: "\<forall>col \<in> set (beta st). length col = p"
    and rn: "\<forall>col \<in> set (residuals st). length col = n"
    and se: "\<forall>c < k. is_stable st ! c \<longrightarrow> enough st ! c"
    by (simp_all add: out_inv_def)
  from b obtain beta_sub residuals_sub residuals0 slope is_stable_sub y_sub1 first_date where
    pb: "put_cols ?A (beta st) beta_sub = Inr (beta st')"
    and fr: "fill_nan_cols ?A (residuals st) = Inr residuals0"
    and pr: "put_tail_cols (nrows (y_sub st)) ?A residuals0 residuals_sub = Inr (residuals st')"
    and ps: "put ?A (is_stable st) is_stable_sub = Inr (is_stable st')"
    and br: "f = Break \<Longrightarrow> enough st' = enough st"
    and co: "f = Continue \<Longrightarrow>
       put (active (is_stable st') (enough st)) (enough st) (enough_data p y_sub1) = Inr (enough st')"
    by (rule loop_bodyE) blast
  have ls: "length (is_stable st') = k" using put_Inr(3)[OF ps] k by simp
  have le: "length (enough st') = k"
  proof (cases f)
    case Break then show ?thesis using br k by simp
  next
    case Continue then show ?thesis using put_Inr(3)[OF co[OF Continue]] k by simp
  qed
  have lb: "length (beta st') = k" using put_cols_Inr(4)[OF pb] k by simp
  have lr0: "length residuals0 = k" using fill_nan_cols_Inr(2)[OF fr] k by simp
  have lr: "length (residuals st') = k" using put_tail_cols_Inr(4)[OF pr] lr0 by simp
  have bsub: "\<forall>col \<in> set beta_sub. length col = p"
  proof (rule map_length_const[OF put_cols_Inr(3)[OF pb]])
    show "\<forall>x \<in> set (select ?A (beta st)). length x = p"
      using bp set_select[of ?A "beta st"] by auto
  qed
  have bp': "\<forall>col \<in> set (beta st'). length col = p"
  proof
    fix col assume "col \<in> set (beta st')"
    moreover have "set (beta st') \<subseteq> set (beta st) \<union> set beta_sub"
      using set_scatter[of ?A "beta st" beta_sub] by (simp add: put_cols_Inr(4)[OF pb])
    ultimately have "col \<in> set (beta st) \<union> set beta_sub" by (rule subsetD[rotated])
    then show "length col = p" using bp bsub by blast
  qed
  have r0n: "\<forall>col \<in> set residuals0. length col = n"
  proof
    fix col assume "col \<in> set residuals0"
    then obtain c where c: "c < length residuals0" "col = residuals0 ! c"
      by (auto simp: in_set_conv_nth)
    then have "c < length (residuals st)" using lr0 k by simp
    then show "length col = n"
      using fill_nan_cols_Inr(3)[OF fr, of c] c rn by (auto simp: nth_mem)
  qed
  let ?new = "map2 (\<lambda>col v. take (tail_start (nrows (y_sub st)) (length col)) col @ v)
                (select ?A residuals0) residuals_sub"
  have newn: "\<forall>col \<in> set ?new. length col = n"
  proof
    fix col assume "col \<in> set ?new"
    then obtain i where i: "i < length ?new" "col = ?new ! i"
      by (auto simp: in_set_conv_nth)
    let ?c = "select ?A residuals0 ! i" and ?v = "residuals_sub ! i"
    have i1: "i < length (select ?A residuals0)" "i < length residuals_sub" using i by simp_all
    have cn: "length ?c = n"
      using r0n set_select[of ?A residuals0] nth_mem[OF i1(1)] by auto
    have "map length residuals_sub ! i
            = map (\<lambda>col. length col - tail_start (nrows (y_sub st)) (length col)) (select ?A residuals0) ! i"
      using put_tail_cols_Inr(3)[OF pr] by simp
    then have "length ?v = n - tail_start (nrows (y_sub st)) n"
      using i1 cn by simp
    moreover have "col = take (tail_start (nrows (y_sub st)) (length ?c)) ?c @ ?v"
      using i i1 by simp
    ultimately show "length col = n"
      using cn tail_start_le[of "nrows (y_sub st)" n] by simp
  qed
  have rn': "\<forall>col \<in> set (residuals st'). length col = n"
  proof
    fix col assume "col \<in> set (residuals st')"
    moreover have "set (residuals st') \<subseteq> set residuals0 \<union> set ?new"
      using set_scatter[of ?A residuals0 ?new] by (simp add: put_tail_cols_Inr(4)[OF pr])
    ultimately have "col \<in> set residuals0 \<union> set ?new" by (rule subsetD[rotated])
    then show "length col = n" using r0n newn by blast
  qed
  have se': "\<forall>c < k. is_stable st' ! c \<longrightarrow> enough st' ! c"
  proof (intro allI impI)
    fix c assume c: "c < k" and s': "is_stable st' ! c"
    show "enough st' ! c"
    proof (cases "?A ! c")
      case False
      from body_frame[OF b k(1,2) c False] s' se c show ?thesis by simp
    next
      case True
      then have e: "enough st ! c" using c k by (simp add: active_nth)
      show ?thesis
      proof (cases f)
        case Break then show ?thesis using br e by simp
      next
        case Continue
        have "\<not> active (is_stable st') (enough st) ! c"
          using s' c ls k by (simp add: active_nth)
        then show ?thesis
          using put_Inr[OF co[OF Continue]] k c e by (simp add: scatter_nth_False)
      qed
    qed
  qed
  show ?thesis
    unfolding out_inv_def using ls le lb lr bp' rn' se' by blast
qed

lemma count_scatter_False:
  "length w = length (filter (\<lambda>b. b) msk)
     \<Longrightarrow> length (filter (\<lambda>b. b) (scatter msk (replicate (length msk) False) w))
         = length (filter (\<lambda>b. b) w)"
proof (induction msk arbitrary: w)
  case Nil
  then show ?case by simp
next
  case (Cons m msk)
  show ?case
  proof (cases m)
    case True
    with Cons.prems obtain v vs where w: "w = v # vs" by (cases w) auto
    with True Cons show ?thesis by simp
  next
    case False
    with Cons show ?thesis by simp
  qed
qed

lemma active_scatter_stable:
  assumes "length s = k" "length e = k" "length sub = length (filter (\<lambda>b. b) (active s e))"
  shows "active (scatter (active s e) s sub) e
           = scatter (active s e) (replicate (length (active s e)) False) (map Not sub)"
proof (rule nth_equalityI)
  show "length (active (scatter (active s e) s sub) e)
          = length (scatter (active s e) (replicate (length (active s e)) False) (map Not sub))"
    using assms by simp
next
  fix c assume "c < length (active (scatter (active s e) s sub) e)"
  then have c: "c < k" using assms by simp
  have lA: "length (active s e) = k" using assms by simp
  show "active (scatter (active s e) s sub) e ! c
          = scatter (active s e) (replicate (length (active s e)) False) (map Not sub) ! c"
  proof (cases "active s e ! c")
    case True
    then have "rank (active s e) c < length sub"
      using select_nth[of "active s e" s c] assms lA c by (simp add: length_select)
    then show ?thesis
      using True assms lA c
      by (simp add: active_nth scatter_nth_True)
  next
    case False
    then show ?thesis
      using assms lA c by (simp add: active_nth scatter_nth_False)
  qed
qed

lemma active_scatter_enough:
  assumes "length s = k" "length e = k" "length w = length (filter (\<lambda>b. b) (active s e))"
  shows "active s (scatter (active s e) e w)
           = scatter (active s e) (replicate (length (active s e)) False) w"
proof (rule nth_equalityI)
  show "length (active s (scatter (active s e) e w))
          = length (scatter (active s e) (replicate (length (active s e)) False) w)"
    using assms by simp
next
  fix c assume "c < length (active s (scatter (active s e) e w))"
  then have c: "c < k" using assms by simp
  have lA: "length (active s e) = k" using assms by simp
  show "active s (scatter (active s e) e w) ! c
          = scatter (active s e) (replicate (length (active s e)) False) w ! c"
  proof (cases "active s e ! c")
    case True
    then show ?thesis
      using assms lA c by (simp add: active_nth scatter_nth_True)
  next
    case False
    then show ?thesis
      using assms lA c by (simp add: active_nth scatter_nth_False)
  qed
qed

lemma select_map_pred: "x \<in> set (select (map P xs) xs) \<Longrightarrow> P x"
  by (induction xs) (auto split: if_splits)

lemma count_map_Not_select:
  "length (select (map Not fl) ys) = length (filter (\<lambda>b. b) (map Not fl))" if "length fl = length ys"
  using that by (simp add: length_select)

lemma enough_data_map:
  "enough_data p ys = map (\<lambda>col. real (nancount col) > real p * 1.5) ys"
  by (simp add: enough_data_def)

lemma body_win_inv:
  assumes b: "loop_body ols years p last_date threshold st = Inr (Continue, st')"
    and out: "out_inv n k p st" and win: "win_inv n p st"
  shows "win_inv n p st'"
proof -
  let ?A = "active (is_stable st) (enough st)"
  let ?A' = "active (is_stable st') (enough st)"
  from out have k: "length (is_stable st) = k" "length (enough st) = k"
    by (simp_all add: out_inv_def)
  from win have ly: "length (y_sub st) = length (filter (\<lambda>b. b) ?A)"
    and cy: "\<forall>col \<in> set (y_sub st). length col = length (dates st)"
    and lx: "length (X_sub st) = length (dates st)"
    and rx: "\<forall>r \<in> set (X_sub st). length r = p"
    and ld: "length (dates st) \<le> n"
    by (simp_all add: win_inv_def)
  from b obtain is_stable_sub y_sub1 where
    ps: "put ?A (is_stable st) is_stable_sub = Inr (is_stable st')"
    and sc: "select_checked (map Not is_stable_sub) (map (drop 2) (y_sub st)) = Inr y_sub1"
    and xs: "X_sub st' = drop 2 (X_sub st)" and ds: "dates st' = drop 2 (dates st)"
    and co: "put ?A' (enough st) (enough_data p y_sub1) = Inr (enough st')"
      "select_checked (enough_data p y_sub1) y_sub1 = Inr (y_sub st')"
    by (rule loop_bodyE) blast
  let ?w = "enough_data p y_sub1"
  have lA: "length ?A = k" using k by simp
  have s': "is_stable st' = scatter ?A (is_stable st) is_stable_sub"
    and lsub: "length is_stable_sub = length (filter (\<lambda>b. b) ?A)"
    using put_Inr[OF ps] by simp_all
  have ls': "length (is_stable st') = k" using s' k by simp
  have A': "?A' = scatter ?A (replicate (length ?A) False) (map Not is_stable_sub)"
    unfolding s' by (rule active_scatter_stable[OF k lsub])
  have e': "enough st' = scatter ?A' (enough st) ?w"
    and lw: "length ?w = length (filter (\<lambda>b. b) ?A')"
    using put_Inr[OF co(1)] by simp_all
  have A'': "active (is_stable st') (enough st') = scatter ?A' (replicate (length ?A') False) ?w"
    unfolding e' by (rule active_scatter_enough[OF ls' k(2) lw])
  have cnt: "length (filter (\<lambda>b. b) (active (is_stable st') (enough st')))
               = length (filter (\<lambda>b. b) ?w)"
    unfolding A'' by (rule count_scatter_False[OF lw])
  have y': "y_sub st' = select ?w y_sub1" and lwy: "length ?w = length y_sub1"
    using select_checked_Inr[OF co(2)] by simp_all
  have y1: "y_sub1 = select (map Not is_stable_sub) (map (drop 2) (y_sub st))"
    using select_checked_Inr[OF sc] by simp
  have c1: "length (y_sub st') = length (filter (\<lambda>b. b) (active (is_stable st') (enough st')))"
    unfolding cnt y' using lwy by (simp add: length_select)
  have c2: "\<forall>col \<in> set (y_sub st'). length col = length (dates st') \<and>
              real (nancount col) > real p * 1.5"
  proof
    fix col assume col: "col \<in> set (y_sub st')"
    then have "col \<in> set y_sub1" using y' set_select[of ?w y_sub1] by auto
    then have "col \<in> set (map (drop 2) (y_sub st))"
      using y1 set_select[of "map Not is_stable_sub" "map (drop 2) (y_sub st)"] by auto
    then have len: "length col = length (dates st')" using cy ds by auto
    from col have "col \<in> set (select (map (\<lambda>col. real (nancount col) > real p * 1.5) y_sub1) y_sub1)"
      using y' by (simp add: enough_data_map)
    then have "real (nancount col) > real p * 1.5" by (rule select_map_pred)
    with len show "length col = length (dates st') \<and> real (nancount col) > real p * 1.5" by simp
  qed
  have c3: "length (X_sub st') = length (dates st')" using xs ds lx by simp
  have c4: "\<forall>r \<in> set (X_sub st'). length r = p" using xs rx by (auto dest: in_set_dropD)
  have c5: "length (dates st') \<le> n" using ds ld by simp
  show ?thesis unfolding win_inv_def using c1 c2 c3 c4 c5 by blast
qed


lemma not_all_done_active:
  assumes "length (is_stable st) = length (enough st)" "\<not> all_done st"
  shows "\<exists>c < length (is_stable st). active (is_stable st) (enough st) ! c"
proof -
  from assms(2) obtain c where c: "c < length (map2 (\<lambda>s e. s \<or> \<not> e) (is_stable st) (enough st))"
    and x: "\<not> map2 (\<lambda>s e. s \<or> \<not> e) (is_stable st) (enough st) ! c"
    unfolding all_done_def list_all_length by blast
  from c have c': "c < length (is_stable st)" using assms(1) by simp
  with x assms(1) have "active (is_stable st) (enough st) ! c"
    by (simp add: active_nth)
  with c' show ?thesis by blast
qed

lemma count_pos:
  assumes "c < length msk" "msk ! c"
  shows "0 < length (filter (\<lambda>b. b) msk)"
proof -
  have "msk ! c \<in> set msk" using assms(1) by simp
  then have "True \<in> set msk" using assms(2) by simp
  then have "filter (\<lambda>b. b) msk \<noteq> []" by (auto simp: filter_empty_conv)
  then show ?thesis by simp
qed

lemma nancount_le: "nancount xs \<le> length xs"
  by (simp add: nancount_def)

text \<open>A window with an active column has at least four rows when \<open>p\<close> is at least 2.\<close>

lemma window_rows:
  assumes out: "out_inv n k p st" and win: "win_inv n p st" and nd: "\<not> all_done st"
  shows "y_sub st \<noteq> []" "real (length (dates st)) > real p * 1.5"
proof -
  from out have k: "length (is_stable st) = k" "length (enough st) = k"
    by (simp_all add: out_inv_def)
  from not_all_done_active[OF _ nd] k obtain c where
    c: "c < k" "active (is_stable st) (enough st) ! c" by auto
  have "0 < length (filter (\<lambda>b. b) (active (is_stable st) (enough st)))"
    using count_pos[of c "active (is_stable st) (enough st)"] c k by simp
  then have "0 < length (y_sub st)" using win by (simp add: win_inv_def)
  then show ne: "y_sub st \<noteq> []" by simp
  then obtain col where col: "col \<in> set (y_sub st)" by (cases "y_sub st") auto
  then have "length col = length (dates st)" "real (nancount col) > real p * 1.5"
    using win by (simp_all add: win_inv_def)
  moreover have "real (nancount col) \<le> real (length col)" using nancount_le[of col] by simp
  ultimately show "real (length (dates st)) > real p * 1.5" by simp
qed




lemma active_replicate_False: "active (replicate (length e) False) e = e"
  by (rule nth_equalityI) (simp_all add: active_nth)

lemma init_out_inv:
  assumes "well_shaped X y ds"
  shows "out_inv (length ds) (length y) (ncols X) (init_state X y ds)"
  using assms unfolding out_inv_def init_state_def well_shaped_def Let_def
  by (simp add: enough_data_def)

lemma init_win_inv:
  assumes "well_shaped X y ds"
  shows "win_inv (length ds) (ncols X) (init_state X y ds)"
proof -
  let ?e = "enough_data (ncols X) y"
  have le: "length ?e = length y" by (simp add: enough_data_def)
  have a: "active (replicate (length ?e) False) ?e = ?e" by (rule active_replicate_False)
  have c2: "\<forall>col \<in> set (select ?e y). length col = length ds \<and>
              real (nancount col) > real (ncols X) * 1.5"
  proof
    fix col assume col: "col \<in> set (select ?e y)"
    then have "col \<in> set y" using set_select[of ?e y] by auto
    then have "length col = length ds" using assms by (simp add: well_shaped_def)
    moreover from col have "real (nancount col) > real (ncols X) * 1.5"
      unfolding enough_data_map by (rule select_map_pred)
    ultimately show "length col = length ds \<and> real (nancount col) > real (ncols X) * 1.5"
      by simp
  qed
  show ?thesis
    unfolding win_inv_def init_state_def Let_def
    using assms a c2 le by (simp add: well_shaped_def length_select)
qed


lemma loop_frame:
  assumes "loop ols years p last_date threshold st = Inr (b, r, s)" "out_inv n k p st"
    "c < k" "\<not> active (is_stable st) (enough st) ! c"
  shows "b ! c = beta st ! c \<and> r ! c = residuals st ! c \<and> s ! c = is_stable st ! c"
  using assms
proof (induction ols years p last_date threshold st rule: loop.induct)
  case (1 ols years p last_date threshold st)
  from "1.prems"(2) have k: "length (is_stable st) = k" "length (enough st) = k"
    by (simp_all add: out_inv_def)
  show ?case
  proof (cases "all_done st")
    case True
    then show ?thesis using "1.prems"(1) by (simp add: outputs_def)
  next
    case False
    with "1.prems"(1) obtain f st' where
      b: "loop_body ols years p last_date threshold st = Inr (f, st')"
      by (auto split: sum.splits)
    note fr = body_frame[OF b k "1.prems"(3,4)]
    have out': "out_inv n k p st'" by (rule body_out_inv[OF b "1.prems"(2)])
    then have k': "length (is_stable st') = k" "length (enough st') = k"
      by (simp_all add: out_inv_def)
    show ?thesis
    proof (cases f)
      case Break
      then show ?thesis using False b "1.prems"(1) fr by (simp add: outputs_def)
    next
      case Continue
      have na': "\<not> active (is_stable st') (enough st') ! c"
        using "1.prems"(3,4) fr k k' by (simp add: active_nth)
      have l': "loop ols years p last_date threshold st' = Inr (b, r, s)"
        using False b Continue "1.prems"(1) by simp
      from "1.IH"[OF False b refl Continue l' out' "1.prems"(3) na'] fr
      show ?thesis by simp
    qed
  qed
qed

lemma bindE_Inl: "bindE m f = Inl e \<longleftrightarrow> m = Inl e \<or> (\<exists>v. m = Inr v \<and> f v = Inl e)"
  by (cases m) (simp_all add: bindE_def)






lemmas run_defs = ccdc_stable_fit_def init_state_def loop_body_def bindE_def first_of_def
  enough_data_def nancount_def ncols_def nrows_def select_def active_def all_done_def outputs_def
  put_def put_cols_def fill_nan_cols_def put_tail_cols_def tail_start_def select_checked_def
  is_stable_ccdc_def row_at_def row_last_def nanmean_def nansum_def fl_sq_def ols_zero_def
  fit_def Let_def

text \<open>
  An example call: six yearly dates, a design matrix of zeros with two columns and three
  pixels. The first pixel is unstable on the full window and stable after one shrink, the
  second is stable at once, the third has two observations only.
\<close>

lemma example_run:
  "ccdc_stable_fit ols_zero (\<lambda>d. d) 
     [[Fin 0, Fin 0], [Fin 0, Fin 0], [Fin 0, Fin 0], [Fin 0, Fin 0], [Fin 0, Fin 0],
      [Fin 0, Fin 0]]
     [[Fin 4, Fin 2, Fin 1, Fin 1, Fin 1, Fin 1], [Fin 1, Fin 1, Fin 1, Fin 1, Fin 1, Fin 1],
      [NaN, NaN, NaN, NaN, Fin 1, Fin 1]] [2000, 2001, 2002, 2003, 2004, 2005] (Fin 2)
   = Inr ([[Fin 0, Fin 0], [Fin 0, Fin 0], [NaN, NaN]],
          [[NaN, NaN, Fin 1, Fin 1, Fin 1, Fin 1], [Fin 1, Fin 1, Fin 1, Fin 1, Fin 1, Fin 1],
           [NaN, NaN, NaN, NaN, NaN, NaN]], [True, True, False])"
  by (simp add: run_defs numeral_eq_Suc)

lemma example_shaped:
  "well_shaped 
     [[Fin 0, Fin 0], [Fin 0, Fin 0], [Fin 0, Fin 0], [Fin 0, Fin 0], [Fin 0, Fin 0],
      [Fin 0, Fin 0]]
     [[Fin 4, Fin 2, Fin 1, Fin 1, Fin 1, Fin 1], [Fin 1, Fin 1, Fin 1, Fin 1, Fin 1, Fin 1],
      [NaN, NaN, NaN, NaN, Fin 1, Fin 1]] [2000, 2001, 2002, 2003, 2004, 2005]"
  by (simp add: well_shaped_def ncols_def numeral_eq_Suc)


text \<open>
  Claim C3. A column is passed to the first fit exactly when its number of observations
  that are not missing exceeds 1.5 times the number of design columns (\<open>init_state\<close>
  selects the columns by \<open>enough_data\<close>). For a column that fails this test at the entry
  of a call that returns, the returned stability flag is false and the returned
  coefficient column and residual column hold the missing sentinel only.
\<close>

theorem ccdc_stable_fit_insufficient:
  assumes "well_shaped X y ds"
    and "ccdc_stable_fit ols years X y ds threshold = Inr (b, r, s)"
    and "c < length y"
    and "\<not> real (nancount (y ! c)) > real (ncols X) * 1.5"
  shows "y_sub (init_state X y ds)
           = select (map (\<lambda>col. real (nancount col) > real (ncols X) * 1.5) y) y \<and>
         \<not> s ! c \<and> b ! c = replicate (ncols X) NaN \<and> r ! c = replicate (length ds) NaN"
proof -
  let ?st = "init_state X y ds"
  from assms(2) obtain d where
    l: "loop ols years (ncols X) (last ds) threshold ?st = Inr (b, r, s)"
    unfolding ccdc_stable_fit_def
    by (auto simp: bindE_Inr Let_def split: if_splits)
  have e: "enough ?st = enough_data (ncols X) y" "is_stable ?st = replicate (length y) False"
    by (simp_all add: init_state_def Let_def enough_data_def)
  have "\<not> enough ?st ! c" using assms(3,4) e by (simp add: enough_data_def)
  then have na: "\<not> active (is_stable ?st) (enough ?st) ! c"
    using assms(3) e by (simp add: active_nth enough_data_def)
  from loop_frame[OF l init_out_inv[OF assms(1)] assms(3) na]
  have "b ! c = beta ?st ! c" "r ! c = residuals ?st ! c" "s ! c = is_stable ?st ! c"
    by simp_all
  moreover have "length (y ! c) = length ds"
    using assms(1,3) by (simp add: well_shaped_def)
  ultimately show ?thesis
    using assms(3) by (simp add: init_state_def Let_def enough_data_map)
qed

theorem ccdc_stable_fit_insufficient_witness:
  "well_shaped
     [[Fin 0, Fin 0], [Fin 0, Fin 0], [Fin 0, Fin 0], [Fin 0, Fin 0], [Fin 0, Fin 0],
      [Fin 0, Fin 0]]
     [[Fin 4, Fin 2, Fin 1, Fin 1, Fin 1, Fin 1], [Fin 1, Fin 1, Fin 1, Fin 1, Fin 1, Fin 1],
      [NaN, NaN, NaN, NaN, Fin 1, Fin 1]] [2000, 2001, 2002, 2003, 2004, 2005] \<and>
   ccdc_stable_fit ols_zero (\<lambda>d. d)
     [[Fin 0, Fin 0], [Fin 0, Fin 0], [Fin 0, Fin 0], [Fin 0, Fin 0], [Fin 0, Fin 0],
      [Fin 0, Fin 0]]
     [[Fin 4, Fin 2, Fin 1, Fin 1, Fin 1, Fin 1], [Fin 1, Fin 1, Fin 1, Fin 1, Fin 1, Fin 1],
      [NaN, NaN, NaN, NaN, Fin 1, Fin 1]] [2000, 2001, 2002, 2003, 2004, 2005] (Fin 2)
   = Inr ([[Fin 0, Fin 0], [Fin 0, Fin 0], [NaN, NaN]],
          [[NaN, NaN, Fin 1, Fin 1, Fin 1, Fin 1], [Fin 1, Fin 1, Fin 1, Fin 1, Fin 1, Fin 1],
           [NaN, NaN, NaN, NaN, NaN, NaN]], [True, True, False]) \<and>
   \<not> real (nancount [NaN, NaN, NaN, NaN, Fin 1, Fin 1]) > real (2::nat) * 1.5 \<and>
   \<not> [True, True, False] ! 2 \<and>
   [[Fin 0, Fin 0], [Fin 0, Fin 0], [NaN, NaN]] ! 2 = [NaN, NaN] \<and>
   [[NaN, NaN, Fin 1, Fin 1, Fin 1, Fin 1], [Fin 1, Fin 1, Fin 1, Fin 1, Fin 1, Fin 1],
    [NaN, NaN, NaN, NaN, NaN, NaN]] ! 2 = [NaN, NaN, NaN, NaN, NaN, NaN]"
  using example_shaped example_run
    ccdc_stable_fit_insufficient [OF example_shaped example_run, of 2]
  by (simp add: nancount_def ncols_def)




lemma step_out_inv:
  assumes "iter_step ols years p last_date threshold a b" "out_inv n k p (snd a)"
  shows "out_inv n k p (snd b)"
proof -
  from assms(1) have "loop_body ols years p last_date threshold (snd a) = Inr (fst b, snd b)"
    by (simp add: iter_step_def)
  from body_out_inv[OF this assms(2)] show ?thesis .
qed

lemma reach_out_inv:
  assumes "(iter_step ols years p last_date threshold)\<^sup>*\<^sup>* a b" "out_inv n k p (snd a)"
  shows "out_inv n k p (snd b)"
  using assms by (induction rule: rtranclp_induct) (auto intro: step_out_inv)

lemma step_mono:
  assumes st: "iter_step ols years p last_date threshold a b" and inv: "out_inv n k p (snd a)"
    and c: "c < k"
  shows "(stable_col (snd a) c \<longrightarrow> stable_col (snd b) c) \<and>
         (insufficient_col (snd a) c \<longrightarrow> insufficient_col (snd b) c)"
proof -
  from st have b: "loop_body ols years p last_date threshold (snd a) = Inr (fst b, snd b)"
    by (simp add: iter_step_def)
  from inv have k: "length (is_stable (snd a)) = k" "length (enough (snd a)) = k"
    by (simp_all add: out_inv_def)
  have "stable_col (snd b) c" if "stable_col (snd a) c"
  proof -
    from that have "\<not> active (is_stable (snd a)) (enough (snd a)) ! c"
      using k c by (simp add: active_nth stable_col_def)
    from body_frame(1)[OF b k c this] that show ?thesis by (simp add: stable_col_def)
  qed
  moreover have "insufficient_col (snd b) c" if "insufficient_col (snd a) c"
  proof -
    from that have "\<not> active (is_stable (snd a)) (enough (snd a)) ! c"
      using k c by (simp add: active_nth insufficient_col_def)
    from body_frame(2)[OF b k c this] that show ?thesis by (simp add: insufficient_col_def)
  qed
  ultimately show ?thesis by blast
qed

lemma reach_mono:
  assumes "(iter_step ols years p last_date threshold)\<^sup>*\<^sup>* a b" "out_inv n k p (snd a)" "c < k"
  shows "(stable_col (snd a) c \<longrightarrow> stable_col (snd b) c) \<and>
         (insufficient_col (snd a) c \<longrightarrow> insufficient_col (snd b) c)"
  using assms
proof (induction rule: rtranclp_induct)
  case base
  then show ?case by simp
next
  case (step b1 b2)
  from reach_out_inv[OF step.hyps(1) step.prems(1)] have "out_inv n k p (snd b1)" .
  from step_mono[OF step.hyps(2) this step.prems(2)] step.IH[OF step.prems]
  show ?case by blast
qed

lemma partition_exactly_one:
  assumes "out_inv n k p st" "c < k"
  shows "(stable_col st c \<and> \<not> insufficient_col st c \<and> \<not> iterating_col st c) \<or>
         (\<not> stable_col st c \<and> insufficient_col st c \<and> \<not> iterating_col st c) \<or>
         (\<not> stable_col st c \<and> \<not> insufficient_col st c \<and> iterating_col st c)"
proof -
  from assms have k: "length (is_stable st) = k" "length (enough st) = k"
    and se: "is_stable st ! c \<longrightarrow> enough st ! c"
    by (simp_all add: out_inv_def)
  show ?thesis
    unfolding stable_col_def insufficient_col_def iterating_col_def
    using k assms(2) se by (auto simp: active_nth)
qed

text \<open>
  Claim C6. In every state that the loop of a call reaches, each pixel column is in
  exactly one of the three classes stable, insufficient data and still iterating; and
  from any reached state to any state reached later, a stable column stays stable, a
  column with insufficient data keeps insufficient data, and a column that is not
  iterating does not iterate again.
\<close>

theorem active_set_partition:
  assumes "well_shaped X y ds"
    and "(iter_step ols years (ncols X) last_date threshold)\<^sup>*\<^sup>* (Continue, init_state X y ds) a"
    and "(iter_step ols years (ncols X) last_date threshold)\<^sup>*\<^sup>* a b"
    and "c < length y"
  shows "((stable_col (snd a) c \<and> \<not> insufficient_col (snd a) c \<and> \<not> iterating_col (snd a) c) \<or>
          (\<not> stable_col (snd a) c \<and> insufficient_col (snd a) c \<and> \<not> iterating_col (snd a) c) \<or>
          (\<not> stable_col (snd a) c \<and> \<not> insufficient_col (snd a) c \<and> iterating_col (snd a) c)) \<and>
         (stable_col (snd a) c \<longrightarrow> stable_col (snd b) c) \<and>
         (insufficient_col (snd a) c \<longrightarrow> insufficient_col (snd b) c) \<and>
         (\<not> iterating_col (snd a) c \<longrightarrow> \<not> iterating_col (snd b) c)"
proof -
  have i0: "out_inv (length ds) (length y) (ncols X) (snd (Continue, init_state X y ds))"
    using init_out_inv[OF assms(1)] by simp
  from reach_out_inv[OF assms(2) i0] have ia: "out_inv (length ds) (length y) (ncols X) (snd a)" .
  from reach_out_inv[OF assms(3) ia] have ib: "out_inv (length ds) (length y) (ncols X) (snd b)" .
  note pa = partition_exactly_one[OF ia assms(4)]
  note pb = partition_exactly_one[OF ib assms(4)]
  note m = reach_mono[OF assms(3) ia assms(4)]
  show ?thesis using pa pb m by blast
qed

lemma select_map: "select msk (map f xs) = map f (select msk xs)"
proof (induction msk arbitrary: xs)
  case Nil
  then show ?case by simp
next
  case (Cons m msk)
  then show ?case by (cases xs) simp_all
qed

lemma select_select:
  "length msk = length xs \<Longrightarrow> length w = length (filter (\<lambda>b. b) msk)
     \<Longrightarrow> select w (select msk xs) = select (scatter msk (replicate (length msk) False) w) xs"
proof (induction msk xs arbitrary: w rule: list_induct2)
  case Nil
  then show ?case by simp
next
  case (Cons m msk x xs)
  show ?case
  proof (cases m)
    case True
    with Cons.prems obtain v vs where w: "w = v # vs" by (cases w) auto
    with True Cons show ?thesis by simp
  next
    case False
    with Cons show ?thesis by simp
  qed
qed

lemma init_tail_inv: "tail_inv X y ds (init_state X y ds)"
proof -
  let ?e = "enough_data (ncols X) y"
  have "active (replicate (length ?e) False) ?e = ?e" by (rule active_replicate_False)
  then show ?thesis
    unfolding tail_inv_def init_state_def Let_def by simp
qed

lemma body_tail_inv:
  assumes b: "loop_body ols years p last_date threshold st = Inr (Continue, st')"
    and out: "out_inv n k p st" and tl: "tail_inv X y ds st"
    and lk: "length y = k"
  shows "tail_inv X y ds st'"
proof -
  let ?A = "active (is_stable st) (enough st)"
  let ?A' = "active (is_stable st') (enough st)"
  let ?d = "length ds - length (dates st)"
  let ?ys = "map (drop ?d) y"
  from out have k: "length (is_stable st) = k" "length (enough st) = k"
    by (simp_all add: out_inv_def)
  from tl have tx: "X_sub st = drop ?d X" and td: "dates st = drop ?d ds"
    and ty: "y_sub st = select ?A ?ys"
    by (simp_all add: tail_inv_def Let_def)
  from b obtain is_stable_sub y_sub1 first_date where
    ps: "put ?A (is_stable st) is_stable_sub = Inr (is_stable st')"
    and sc: "select_checked (map Not is_stable_sub) (map (drop 2) (y_sub st)) = Inr y_sub1"
    and xs: "X_sub st' = drop 2 (X_sub st)" and dd: "dates st' = drop 2 (dates st)"
    and fo: "first_of (dates st') = Inr first_date"
    and co: "put ?A' (enough st) (enough_data p y_sub1) = Inr (enough st')"
      "select_checked (enough_data p y_sub1) y_sub1 = Inr (y_sub st')"
    by (rule loop_bodyE) blast
  let ?w = "enough_data p y_sub1"
  have lA: "length ?A = k" using k by simp
  have s': "is_stable st' = scatter ?A (is_stable st) is_stable_sub"
    and lsub: "length is_stable_sub = length (filter (\<lambda>b. b) ?A)"
    using put_Inr[OF ps] by simp_all
  have ls': "length (is_stable st') = k" using s' k by simp
  have A': "?A' = scatter ?A (replicate (length ?A) False) (map Not is_stable_sub)"
    unfolding s' by (rule active_scatter_stable[OF k lsub])
  have lA': "length ?A' = k" using ls' k by simp
  have e': "enough st' = scatter ?A' (enough st) ?w"
    and lw: "length ?w = length (filter (\<lambda>b. b) ?A')"
    using put_Inr[OF co(1)] by simp_all
  have A'': "active (is_stable st') (enough st') = scatter ?A' (replicate (length ?A') False) ?w"
    unfolding e' by (rule active_scatter_enough[OF ls' k(2) lw])
  have y': "y_sub st' = select ?w y_sub1"
    using select_checked_Inr[OF co(2)] by simp
  have "y_sub1 = select (map Not is_stable_sub) (map (drop 2) (select ?A ?ys))"
    using select_checked_Inr[OF sc] ty by simp
  also have "\<dots> = map (drop 2) (select (map Not is_stable_sub) (select ?A ?ys))"
    by (rule select_map)
  also have "select (map Not is_stable_sub) (select ?A ?ys) = select ?A' ?ys"
    unfolding A' by (rule select_select) (use lA lk lsub in simp_all)
  finally have y1: "y_sub1 = map (drop 2) (select ?A' ?ys)" .
  have "y_sub st' = map (drop 2) (select ?w (select ?A' ?ys))"
    unfolding y' y1 by (rule select_map)
  also have "select ?w (select ?A' ?ys) = select (active (is_stable st') (enough st')) ?ys"
    unfolding A'' by (rule select_select) (use lA' lk lw in simp_all)
  finally have yy: "y_sub st' = select (active (is_stable st') (enough st')) (map (drop 2) ?ys)"
    by (simp add: select_map)
  from fo have "dates st' \<noteq> []" by (auto simp: first_of_def)
  then have "2 < length (dates st)" using dd by simp
  moreover have "length (dates st) \<le> length ds" using td by (metis length_drop diff_le_self)
  ultimately have d2: "length ds - length (dates st') = ?d + 2" using dd by simp
  have dr: "drop 2 (drop ?d zs) = drop (?d + 2) zs" for zs :: "'z list"
    by (simp add: add.commute)
  have c1: "X_sub st' = drop (?d + 2) X" using xs tx dr[of X] by simp
  have c2: "dates st' = drop (?d + 2) ds" using dd td dr[of ds] by metis
  have mm: "map (drop 2) ?ys = map (drop (?d + 2)) y" using dr by simp
  have c3: "y_sub st' = select (active (is_stable st') (enough st')) (map (drop (?d + 2)) y)"
    by (simp only: yy mm)
  show ?thesis
    unfolding tail_inv_def Let_def d2 using c1 c2 c3 by blast
qed

lemma active_not_all_done:
  assumes "length (is_stable st) = k" "length (enough st) = k" "c < k"
    "active (is_stable st) (enough st) ! c"
  shows "\<not> all_done st"
proof
  assume "all_done st"
  then have "map2 (\<lambda>s e. s \<or> \<not> e) (is_stable st) (enough st) ! c"
    unfolding all_done_def list_all_length using assms(1-3) by simp
  then show False using assms by (simp add: active_nth)
qed

lemma body_residual:
  assumes b: "loop_body ols years p last_date threshold st = Inr (f, st')"
    and out: "out_inv n k p st" and win: "win_inv n p st"
    and c: "c < k" and act: "active (is_stable st) (enough st) ! c"
  shows "\<exists>bs rs. ols (X_sub st) (y_sub st) = Some (bs, rs) \<and>
           residuals st' ! c = replicate (n - length (dates st)) NaN
              @ rs ! rank (active (is_stable st) (enough st)) c \<and>
           length (rs ! rank (active (is_stable st) (enough st)) c) = length (dates st) \<and>
           0 < length (dates st)"
proof -
  let ?A = "active (is_stable st) (enough st)"
  let ?m = "length (dates st)"
  let ?i = "rank ?A c"
  from out have k: "length (is_stable st) = k" "length (enough st) = k" "length (residuals st) = k"
    and rn: "\<forall>col \<in> set (residuals st). length col = n"
    by (simp_all add: out_inv_def)
  from win have cy: "\<forall>col \<in> set (y_sub st). length col = ?m" and ld: "?m \<le> n"
    by (simp_all add: win_inv_def)
  have nd: "\<not> all_done st" by (rule active_not_all_done[OF k(1,2) c act])
  from window_rows[OF out win nd] have yne: "y_sub st \<noteq> []" and "real ?m > real p * 1.5"
    by simp_all
  then have m0: "0 < ?m" by (cases "?m") simp_all
  have nr: "nrows (y_sub st) = ?m"
    using yne cy by (cases "y_sub st") (simp_all add: nrows_def)
  from b obtain bs rs r0 where
    o: "ols (X_sub st) (y_sub st) = Some (bs, rs)"
    and fr: "fill_nan_cols ?A (residuals st) = Inr r0"
    and pr: "put_tail_cols (nrows (y_sub st)) ?A r0 rs = Inr (residuals st')"
    by (rule loop_bodyE) blast
  have lA: "length ?A = k" using k by simp
  have lr0: "length r0 = k" using fill_nan_cols_Inr(2)[OF fr] k by simp
  have "length (residuals st ! c) = n" using rn k c by simp
  then have r0c: "r0 ! c = replicate n NaN"
    using fill_nan_cols_Inr(3)[OF fr, of c] c k act by (simp add: map_replicate_const)
  let ?sel = "select ?A r0"
  let ?new = "map2 (\<lambda>col v. take (tail_start ?m (length col)) col @ v) ?sel rs"
  have lrs: "length rs = length (filter (\<lambda>b. b) ?A)"
    and ml: "map length rs = map (\<lambda>col. length col - tail_start ?m (length col)) ?sel"
    and r': "residuals st' = scatter ?A r0 ?new"
    using put_tail_cols_Inr[OF pr] unfolding nr by simp_all
  have lsel: "length ?sel = length (filter (\<lambda>b. b) ?A)"
    using lA lr0 by (simp add: length_select)
  from select_nth[of ?A r0 c] lA lr0 c act
  have i: "?i < length ?sel" and si: "?sel ! ?i = r0 ! c" by simp_all
  have lnew: "length ?new = length (filter (\<lambda>b. b) ?A)" using lsel lrs by simp
  have "residuals st' ! c = ?new ! ?i"
    unfolding r' using scatter_nth_True[of ?A r0 ?new c] lA lr0 lnew c act by simp
  also have "\<dots> = take (tail_start ?m n) (replicate n NaN) @ rs ! ?i"
    using i lsel lrs si r0c by simp
  also have "take (tail_start ?m n) (replicate n NaN) = replicate (n - ?m) NaN"
    using m0 ld by (simp add: tail_start_def)
  finally have res: "residuals st' ! c = replicate (n - ?m) NaN @ rs ! ?i" .
  have "length (rs ! ?i) = map length rs ! ?i" using i lsel lrs by simp
  also have "\<dots> = n - tail_start ?m n" unfolding ml using i si r0c by simp
  also have "\<dots> = ?m" using m0 ld by (simp add: tail_start_def)
  finally have "length (rs ! ?i) = ?m" .
  with o res m0 show ?thesis by blast
qed

lemma loop_final_fit:
  assumes "loop ols years p last_date threshold st = Inr (b, r, s)"
    and "out_inv n k p st" and "win_inv n p st" and "tail_inv X y ds st" and "length y = k"
    and "c < k" and "iterating_col st c"
    and "(iter_step ols years p last_date threshold)\<^sup>*\<^sup>* a0 (Continue, st)"
  shows "\<exists>st1 f st' bs rs.
           (iter_step ols years p last_date threshold)\<^sup>*\<^sup>* a0 (Continue, st1) \<and>
           iter_step ols years p last_date threshold (Continue, st1) (f, st') \<and>
           iterating_col st1 c \<and> (f = Break \<or> \<not> iterating_col st' c) \<and>
           tail_inv X y ds st1 \<and>
           ols (X_sub st1) (y_sub st1) = Some (bs, rs) \<and>
           r ! c = replicate (n - length (dates st1)) NaN
                     @ rs ! rank (active (is_stable st1) (enough st1)) c \<and>
           length (rs ! rank (active (is_stable st1) (enough st1)) c) = length (dates st1) \<and>
           0 < length (dates st1)"
  using assms
proof (induction ols years p last_date threshold st rule: loop.induct)
  case (1 ols years p last_date threshold st)
  note l = "1.prems"(1) and out = "1.prems"(2) and win = "1.prems"(3) and tl = "1.prems"(4)
    and lk = "1.prems"(5) and c = "1.prems"(6) and it = "1.prems"(7) and reach = "1.prems"(8)
  from out have k: "length (is_stable st) = k" "length (enough st) = k"
    by (simp_all add: out_inv_def)
  from it have act: "active (is_stable st) (enough st) ! c" by (simp add: iterating_col_def)
  have nd: "\<not> all_done st" by (rule active_not_all_done[OF k c act])
  with l obtain f st' where bd: "loop_body ols years p last_date threshold st = Inr (f, st')"
    by (auto split: sum.splits)
  have step: "iter_step ols years p last_date threshold (Continue, st) (f, st')"
    using nd bd by (simp add: iter_step_def)
  from body_residual[OF bd out win c act] obtain bs rs where
    o: "ols (X_sub st) (y_sub st) = Some (bs, rs)"
    and res: "residuals st' ! c = replicate (n - length (dates st)) NaN
                @ rs ! rank (active (is_stable st) (enough st)) c"
    and len: "length (rs ! rank (active (is_stable st) (enough st)) c) = length (dates st)"
    and m0: "0 < length (dates st)" by blast
  have out': "out_inv n k p st'" by (rule body_out_inv[OF bd out])
  have here: ?case if "r ! c = residuals st' ! c" "f = Break \<or> \<not> iterating_col st' c"
    using that reach step it tl o res len m0 by metis
  show ?case
  proof (cases f)
    case Break
    then have "r = residuals st'" using l nd bd by (simp add: outputs_def)
    then show ?thesis using here Break by simp
  next
    case Continue
    have l': "loop ols years p last_date threshold st' = Inr (b, r, s)"
      using l nd bd Continue by simp
    show ?thesis
    proof (cases "iterating_col st' c")
      case False
      then have "\<not> active (is_stable st') (enough st') ! c" by (simp add: iterating_col_def)
      from loop_frame[OF l' out' c this] have "r ! c = residuals st' ! c" by simp
      then show ?thesis using here False by simp
    next
      case True
      have win': "win_inv n p st'" using body_win_inv[OF _ out win] bd Continue by simp
      have tl': "tail_inv X y ds st'" using body_tail_inv[OF _ out tl lk] bd Continue by simp
      have reach': "(iter_step ols years p last_date threshold)\<^sup>*\<^sup>* a0 (Continue, st')"
        using reach step Continue by (auto intro: rtranclp.rtrancl_into_rtrancl)
      from "1.IH"[OF nd bd refl Continue l' out' win' tl' lk c True reach']
      show ?thesis .
    qed
  qed
qed

text \<open>
  Claim C5. Take a call that returns and a column with enough data at its entry. Then
  the loop reaches an iteration that fits the column and after which the column is not
  fitted again (the loop breaks, or the column is no longer iterating). With \<open>d\<close> the
  number of rows dropped before that iteration, the fit is on the last \<open>n - d\<close> rows of
  \<open>X\<close> and of the column, and the returned residual column is \<open>d\<close> missing sentinels
  followed by the \<open>n - d\<close> residuals that this fit returned for the column: the residuals
  of earlier, longer windows are overwritten.
\<close>

theorem ccdc_stable_fit_residual_tail:
  assumes "well_shaped X y ds"
    and "ccdc_stable_fit ols years X y ds threshold = Inr (b, r, s)"
    and "c < length y"
    and "real (nancount (y ! c)) > real (ncols X) * 1.5"
  shows "\<exists>st f st' bs rs d.
           (iter_step ols years (ncols X) (last ds) threshold)\<^sup>*\<^sup>*
              (Continue, init_state X y ds) (Continue, st) \<and>
           iter_step ols years (ncols X) (last ds) threshold (Continue, st) (f, st') \<and>
           iterating_col st c \<and> (f = Break \<or> \<not> iterating_col st' c) \<and>
           d = length ds - length (dates st) \<and> d < length ds \<and>
           X_sub st = drop d X \<and>
           y_sub st ! rank (active (is_stable st) (enough st)) c = drop d (y ! c) \<and>
           ols (X_sub st) (y_sub st) = Some (bs, rs) \<and>
           r ! c = replicate d NaN @ rs ! rank (active (is_stable st) (enough st)) c \<and>
           length (rs ! rank (active (is_stable st) (enough st)) c) = length ds - d"
proof -
  let ?st0 = "init_state X y ds"
  let ?n = "length ds" and ?k = "length y" and ?p = "ncols X"
  from assms(2) have l: "loop ols years ?p (last ds) threshold ?st0 = Inr (b, r, s)"
    unfolding ccdc_stable_fit_def
    by (auto simp: bindE_Inr Let_def split: if_splits)
  have e: "enough ?st0 = enough_data ?p y" "is_stable ?st0 = replicate ?k False"
    by (simp_all add: init_state_def Let_def enough_data_def)
  have it: "iterating_col ?st0 c"
    unfolding iterating_col_def using assms(3,4) e by (simp add: active_nth enough_data_def)
  from loop_final_fit[OF l init_out_inv[OF assms(1)] init_win_inv[OF assms(1)]
      init_tail_inv refl assms(3) it rtranclp.rtrancl_refl]
  obtain st f st' bs rs where
    reach: "(iter_step ols years ?p (last ds) threshold)\<^sup>*\<^sup>* (Continue, ?st0) (Continue, st)"
    and step: "iter_step ols years ?p (last ds) threshold (Continue, st) (f, st')"
    and itc: "iterating_col st c" and fin: "f = Break \<or> \<not> iterating_col st' c"
    and tl: "tail_inv X y ds st"
    and o: "ols (X_sub st) (y_sub st) = Some (bs, rs)"
    and res: "r ! c = replicate (?n - length (dates st)) NaN
                @ rs ! rank (active (is_stable st) (enough st)) c"
    and len: "length (rs ! rank (active (is_stable st) (enough st)) c) = length (dates st)"
    and m0: "0 < length (dates st)" by blast
  let ?A = "active (is_stable st) (enough st)"
  let ?d = "?n - length (dates st)"
  from tl have tx: "X_sub st = drop ?d X" and td: "dates st = drop ?d ds"
    and ty: "y_sub st = select ?A (map (drop ?d) y)"
    by (simp_all add: tail_inv_def Let_def)
  have "out_inv ?n ?k ?p (snd (Continue, st))"
    by (rule reach_out_inv[OF reach]) (simp add: init_out_inv[OF assms(1)])
  then have lA: "length ?A = ?k" by (simp add: out_inv_def)
  have "length (dates st) \<le> ?n" using td by (metis length_drop diff_le_self)
  with m0 have dn: "?d < ?n" "?n - ?d = length (dates st)" by linarith+
  from select_nth[of ?A "map (drop ?d) y" c] lA assms(3) itc
  have yc: "y_sub st ! rank ?A c = drop ?d (y ! c)"
    unfolding ty by (simp add: iterating_col_def)
  show ?thesis
    using reach step itc fin dn tx yc o res len by metis
qed

lemma ex_shaped: "well_shaped ex_X ex_y ex_ds"
  unfolding ex_X_def ex_y_def ex_ds_def by (rule example_shaped)

lemma ex_run:
  "ccdc_stable_fit ols_zero (\<lambda>d. d) ex_X ex_y ex_ds (Fin 2)
   = Inr ([[Fin 0, Fin 0], [Fin 0, Fin 0], [NaN, NaN]],
          [[NaN, NaN, Fin 1, Fin 1, Fin 1, Fin 1], [Fin 1, Fin 1, Fin 1, Fin 1, Fin 1, Fin 1],
           [NaN, NaN, NaN, NaN, NaN, NaN]], [True, True, False])"
  unfolding ex_X_def ex_y_def ex_ds_def by (rule example_run)

lemma ex_step1:
  "iter_step ols_zero (\<lambda>d. d) (ncols ex_X) 2005 (Fin 2)
     (Continue, init_state ex_X ex_y ex_ds) (Continue, ex_st1)"
  by (simp add: iter_step_def ex_X_def ex_y_def ex_ds_def ex_st1_def run_defs)

lemma ex_step2:
  "iter_step ols_zero (\<lambda>d. d) (ncols ex_X) 2005 (Fin 2) (Continue, ex_st1) (Continue, ex_st2)"
  by (simp add: iter_step_def ex_X_def ex_st1_def ex_st2_def run_defs)

theorem active_set_partition_witness:
  "well_shaped ex_X ex_y ex_ds \<and>
   (iter_step ols_zero (\<lambda>d. d) (ncols ex_X) 2005 (Fin 2))\<^sup>*\<^sup>*
      (Continue, init_state ex_X ex_y ex_ds) (Continue, ex_st1) \<and>
   (iter_step ols_zero (\<lambda>d. d) (ncols ex_X) 2005 (Fin 2))\<^sup>*\<^sup>*
      (Continue, ex_st1) (Continue, ex_st2) \<and>
   stable_col ex_st1 1 \<and> \<not> insufficient_col ex_st1 1 \<and> \<not> iterating_col ex_st1 1 \<and>
   stable_col ex_st2 1 \<and> \<not> iterating_col ex_st2 1"
proof -
  have r1: "(iter_step ols_zero (\<lambda>d. d) (ncols ex_X) 2005 (Fin 2))\<^sup>*\<^sup>*
      (Continue, init_state ex_X ex_y ex_ds) (Continue, ex_st1)"
    using ex_step1 by (rule r_into_rtranclp)
  have r2: "(iter_step ols_zero (\<lambda>d. d) (ncols ex_X) 2005 (Fin 2))\<^sup>*\<^sup>*
      (Continue, ex_st1) (Continue, ex_st2)"
    using ex_step2 by (rule r_into_rtranclp)
  have c: "(1::nat) < length ex_y" by (simp add: ex_y_def)
  have s1: "stable_col ex_st1 1" by (simp add: stable_col_def ex_st1_def)
  from active_set_partition[OF ex_shaped r1 r2 c] s1
  have "\<not> insufficient_col ex_st1 1 \<and> \<not> iterating_col ex_st1 1 \<and>
        stable_col ex_st2 1 \<and> \<not> iterating_col ex_st2 1" by simp
  with ex_shaped r1 r2 s1 show ?thesis by blast
qed

theorem ccdc_stable_fit_residual_tail_witness:
  "well_shaped ex_X ex_y ex_ds \<and>
   ccdc_stable_fit ols_zero (\<lambda>d. d) ex_X ex_y ex_ds (Fin 2)
     = Inr ([[Fin 0, Fin 0], [Fin 0, Fin 0], [NaN, NaN]],
          [[NaN, NaN, Fin 1, Fin 1, Fin 1, Fin 1], [Fin 1, Fin 1, Fin 1, Fin 1, Fin 1, Fin 1],
           [NaN, NaN, NaN, NaN, NaN, NaN]], [True, True, False]) \<and>
   real (nancount (ex_y ! 0)) > real (ncols ex_X) * 1.5 \<and>
   (\<exists>st f st' bs rs d.
      (iter_step ols_zero (\<lambda>d. d) (ncols ex_X) (last ex_ds) (Fin 2))\<^sup>*\<^sup>*
         (Continue, init_state ex_X ex_y ex_ds) (Continue, st) \<and>
      iter_step ols_zero (\<lambda>d. d) (ncols ex_X) (last ex_ds) (Fin 2) (Continue, st) (f, st') \<and>
      iterating_col st 0 \<and> (f = Break \<or> \<not> iterating_col st' 0) \<and>
      d = length ex_ds - length (dates st) \<and> d < length ex_ds \<and>
      X_sub st = drop d ex_X \<and>
      y_sub st ! rank (active (is_stable st) (enough st)) 0 = drop d (ex_y ! 0) \<and>
      ols_zero (X_sub st) (y_sub st) = Some (bs, rs) \<and>
      [NaN, NaN, Fin 1, Fin 1, Fin 1, Fin 1]
         = replicate d NaN @ rs ! rank (active (is_stable st) (enough st)) 0 \<and>
      length (rs ! rank (active (is_stable st) (enough st)) 0) = length ex_ds - d)"
proof -
  have c: "0 < length ex_y" by (simp add: ex_y_def)
  have e: "real (nancount (ex_y ! 0)) > real (ncols ex_X) * 1.5"
    by (simp add: ex_y_def ex_X_def nancount_def ncols_def)
  from ccdc_stable_fit_residual_tail[OF ex_shaped ex_run c e] ex_shaped ex_run e
  show ?thesis by simp
qed

lemma set_nan_where_Inr:
  assumes "map length msk = map length y"
  shows "set_nan_where msk y = Inr (map2 (map2 (\<lambda>m v. if m then NaN else v)) msk y)"
  using assms by (simp add: set_nan_where_def)

lemma map_length_nth:
  assumes "map length a = map length b" "c < length b"
  shows "length (a ! c) = length (b ! c)" "length a = length b"
proof -
  show l: "length a = length b" using assms(1) by (metis length_map)
  have "map length a ! c = map length b ! c" using assms(1) by simp
  then show "length (a ! c) = length (b ! c)" using assms(2) l by simp
qed

text \<open>
  Claim C10, as the code has it. When both robust fits succeed with residual arrays of
  the shape of \<open>y\<close> and the green band has an entry that is not missing, \<open>ccdc_rirls\<close>
  returns \<open>y\<close> in its shape with an entry replaced by the missing sentinel exactly when
  the green residual is above 0.04 times the scaling factor or the SWIR residual is below
  -0.04 times the scaling factor; every other entry is unchanged. Each test is
  one-sided, and a comparison with a missing residual is false.
\<close>

theorem ccdc_rirls_entries:
  assumes "rirls X green_flat = Some (g_beta, g_res)"
    and "rirls X swir_flat = Some (s_beta, s_res)"
    and "map length g_res = map length y" and "map length s_res = map length y"
    and "sum_list (map nancount green_flat) \<noteq> 0"
  shows "\<exists>y'. ccdc_rirls rirls X y green_flat swir_flat scaling_factor = Inr y' \<and>
           map length y' = map length y \<and>
           (\<forall>c < length y. \<forall>t < length (y ! c).
              y' ! c ! t =
                (if fl_greater (g_res ! c ! t) (fl_mult (Fin (4 / 100)) scaling_factor) \<or>
                    fl_less (s_res ! c ! t) (fl_mult (Fin (- (4 / 100))) scaling_factor)
                 then NaN else y ! c ! t))"
proof -
  let ?o = "map2 (map2 (is_outlier_entry scaling_factor)) g_res s_res"
  let ?y' = "map2 (map2 (\<lambda>m v. if m then NaN else v)) ?o y"
  have lg: "length g_res = length y" and ls: "length s_res = length y"
    using assms(3,4) by (metis length_map)+
  have o: "ccdc_rirls_is_outlier g_res s_res scaling_factor = Inr ?o"
    using assms(3,4) by (simp add: ccdc_rirls_is_outlier_def)
  have lo: "map length ?o = map length y"
  proof (rule nth_equalityI)
    show "length (map length ?o) = length (map length y)" using lg ls by simp
  next
    fix c assume "c < length (map length ?o)"
    then have c: "c < length y" using lg ls by simp
    then show "map length ?o ! c = map length y ! c"
      using lg ls map_length_nth(1)[OF assms(3) c] map_length_nth(1)[OF assms(4) c] by simp
  qed
  have m: "ccdc_rirls_masked rirls X y green_flat swir_flat scaling_factor = Inr ?y'"
    unfolding ccdc_rirls_masked_def fit_def assms(1,2)
    using o set_nan_where_Inr[OF lo] by simp
  have r: "ccdc_rirls rirls X y green_flat swir_flat scaling_factor = Inr ?y'"
    unfolding ccdc_rirls_def m ccdc_rirls_log_def using assms(5) by simp
  have ly: "map length ?y' = map length y"
  proof (rule nth_equalityI)
    show "length (map length ?y') = length (map length y)" using lg ls by simp
  next
    fix c assume "c < length (map length ?y')"
    then have c: "c < length y" using lg ls by simp
    then show "map length ?y' ! c = map length y ! c"
      using lg ls map_length_nth(1)[OF assms(3) c] map_length_nth(1)[OF assms(4) c] by simp
  qed
  have e: "?y' ! c ! t =
      (if fl_greater (g_res ! c ! t) (fl_mult (Fin (4 / 100)) scaling_factor) \<or>
          fl_less (s_res ! c ! t) (fl_mult (Fin (- (4 / 100))) scaling_factor)
       then NaN else y ! c ! t)" if c: "c < length y" and t: "t < length (y ! c)" for c t
    using c t lg ls map_length_nth(1)[OF assms(3) c] map_length_nth(1)[OF assms(4) c]
    by (simp add: is_outlier_entry_def)
  show ?thesis using r ly e by blast
qed

theorem ccdc_rirls_entries_witness:
  "ols_zero [[Fin 0]] [[Fin 1, Fin (- 1)]] = Some ([[Fin 0]], [[Fin 1, Fin (- 1)]]) \<and>
   ols_zero [[Fin 0]] [[Fin (- 1), Fin 0]] = Some ([[Fin 0]], [[Fin (- 1), Fin 0]]) \<and>
   sum_list (map nancount [[Fin 1, Fin (- 1)]]) \<noteq> 0 \<and>
   (\<exists>y'. ccdc_rirls ols_zero [[Fin 0]] [[Fin 5, Fin 6]] [[Fin 1, Fin (- 1)]]
            [[Fin (- 1), Fin 0]] (Fin 1) = Inr y' \<and>
         y' ! 0 ! 0 = NaN \<and> y' ! 0 ! 1 = Fin 6)"
proof -
  have a: "ols_zero [[Fin 0]] [[Fin 1, Fin (- 1)]] = Some ([[Fin 0]], [[Fin 1, Fin (- 1)]])"
    and b: "ols_zero [[Fin 0]] [[Fin (- 1), Fin 0]] = Some ([[Fin 0]], [[Fin (- 1), Fin 0]])"
    by (simp_all add: ols_zero_def ncols_def)
  have n: "sum_list (map nancount [[Fin 1, Fin (- 1)]]) \<noteq> 0" by (simp add: nancount_def)
  have l1: "map length [[Fin 1, Fin (- 1)]] = map length [[Fin 5, Fin 6]]"
    and l2: "map length [[Fin (- 1), Fin 0]] = map length [[Fin 5, Fin 6]]" by simp_all
  from ccdc_rirls_entries[where rirls = ols_zero and X = "[[Fin 0]]"
      and green_flat = "[[Fin 1, Fin (- 1)]]" and swir_flat = "[[Fin (- 1), Fin 0]]"
      and scaling_factor = "Fin 1", OF a b l1 l2 n]
  obtain y' where y: "ccdc_rirls ols_zero [[Fin 0]] [[Fin 5, Fin 6]] [[Fin 1, Fin (- 1)]]
            [[Fin (- 1), Fin 0]] (Fin 1) = Inr y'"
    and e: "\<forall>c < length [[Fin 5, Fin 6]]. \<forall>t < length ([[Fin 5, Fin 6]] ! c).
              y' ! c ! t =
                (if fl_greater ([[Fin 1, Fin (- 1)]] ! c ! t) (fl_mult (Fin (4 / 100)) (Fin 1)) \<or>
                    fl_less ([[Fin (- 1), Fin 0]] ! c ! t) (fl_mult (Fin (- (4 / 100))) (Fin 1))
                 then NaN else [[Fin 5, Fin 6]] ! c ! t)"
    by auto
  from e have "y' ! 0 ! 0 = NaN" by (simp add: fl_greater_def)
  moreover from e have "y' ! 0 ! 1 = Fin 6" by (simp add: fl_greater_def)
  ultimately show ?thesis using a b n y by blast
qed

text \<open>
  Claim C10 as stated fails: with a green residual of -1 and a SWIR residual of 0 the
  absolute value of the green residual exceeds 0.04, yet the observation is not marked
  and \<open>y\<close> is returned unchanged.
\<close>

theorem ccdc_rirls_counterexample:
  "ccdc_rirls ols_zero [[Fin 0]] [[Fin 5]] [[Fin (- 1)]] [[Fin 0]] (Fin 1) = Inr [[Fin 5]] \<and>
   ols_zero [[Fin 0]] [[Fin (- 1)]] = Some ([[Fin 0]], [[Fin (- 1)]]) \<and>
   fl_greater (fl_abs (Fin (- 1))) (fl_mult (Fin (4 / 100)) (Fin 1))"
  by (simp add: ccdc_rirls_def ccdc_rirls_masked_def ccdc_rirls_log_def ccdc_rirls_is_outlier_def
      is_outlier_entry_def set_nan_where_def fit_def ols_zero_def ncols_def nancount_def
      fl_greater_def)








lemma bindE_Inr_right [simp]: "bindE m Inr = m"
  by (cases m) (simp_all add: bindE_def)

lemma bindE_assoc: "bindE (bindE m f) g = bindE m (\<lambda>v. bindE (f v) g)"
  by (cases m) (simp_all add: bindE_def)

lemma bindE_Inr_left [simp]: "bindE (Inr v) f = f v"
  by (simp add: bindE_def)

lemma recresid_rows_Nil: "recresid_rows X y [] = Inr"
  by (rule ext) simp

lemma recresid_rows_append:
  "recresid_rows X y (js @ [j]) st = bindE (recresid_rows X y js st) (recresid_step X y j)"
proof (induction js arbitrary: st)
  case Nil
  then show ?case by (simp add: recresid_rows_Nil)
next
  case (Cons a js)
  have "recresid_rows X y (js @ [j])
          = (\<lambda>st. bindE (recresid_rows X y js st) (recresid_step X y j))"
    by (rule ext) (rule Cons.IH)
  then show ?case by (simp add: bindE_assoc)
qed

lemma recresid_rows_append_fun:
  "recresid_rows X y (js @ [j]) = (\<lambda>st. bindE (recresid_rows X y js st) (recresid_step X y j))"
  by (rule ext) (rule recresid_rows_append)

lemma recresid_upto_Suc:
  assumes "spn \<le> Suc j"
  shows "recresid_upto inv_fn X y spn (Suc j)
           = bindE (recresid_upto inv_fn X y spn j) (recresid_step X y (Suc j))"
proof -
  have "[spn..<Suc (Suc j)] = [spn..<Suc j] @ [Suc j]" using assms by simp
  then show ?thesis
    unfolding recresid_upto_def by (simp only: recresid_rows_append_fun bindE_assoc)
qed

lemma recresid_upto_init:
  assumes "j < spn"
  shows "recresid_upto inv_fn X y spn j = recresid_init inv_fn X y spn"
  using assms by (simp add: recresid_upto_def recresid_rows_Nil)

lemma py_index_nat: "j < length xs \<Longrightarrow> py_index xs (int j) = Inr (xs ! j)"
  by (simp add: py_index_def py_pos_def)

lemma py_update_nat: "j < length xs \<Longrightarrow> py_update xs (int j) v = Inr (xs[j := v])"
  by (simp add: py_update_def py_pos_def)

lemma recresid_init_Inr:
  assumes "1 \<le> spn" "spn \<le> length X" "length y = length X"
    and "inv_fn (fl_gram (ncols X) (take spn X)) = Some M"
  shows "recresid_init inv_fn X y spn =
     Inr \<lparr>XTX_j = M,
          beta_j = fl_matvec M (fl_XTY (ncols X) (take spn X) (take spn y)),
          recresid_arr = (replicate (length X) NaN)[spn - 1 :=
             fl_sub (y ! (spn - 1))
               (fl_dot (X ! (spn - 1)) (fl_matvec M (fl_XTY (ncols X) (take spn X) (take spn y))))],
          recvar = (replicate (length X) NaN)[spn - 1 :=
             fl_add (Fin 1) (fl_dot (X ! (spn - 1)) (fl_matvec M (X ! (spn - 1))))]\<rparr>"
proof -
  define s where "s = spn - 1"
  have i: "int spn - 1 = int s" using assms(1) by (simp add: s_def)
  have l: "s < length X" "s < length y" "s < length (replicate (length X) NaN)"
    using assms(1,2,3) by (simp_all add: s_def)
  have "recresid_init inv_fn X y spn =
     Inr \<lparr>XTX_j = M,
          beta_j = fl_matvec M (fl_XTY (ncols X) (take spn X) (take spn y)),
          recresid_arr = (replicate (length X) NaN)[s :=
             fl_sub (y ! s)
               (fl_dot (X ! s) (fl_matvec M (fl_XTY (ncols X) (take spn X) (take spn y))))],
          recvar = (replicate (length X) NaN)[s :=
             fl_add (Fin 1) (fl_dot (X ! s) (fl_matvec M (X ! s)))]\<rparr>"
    unfolding recresid_init_def Let_def assms(4) i
    using assms(2,3)
    by (simp add: py_index_nat[OF l(1)] py_index_nat[OF l(2)] py_update_nat[OF l(3)])
  then show ?thesis unfolding s_def .
qed

lemma recresid_step_Inr:
  assumes "j < length y"
  shows "recresid_step X y j st =
     Inr \<lparr>XTX_j = map2 (\<lambda>row ga. map2 (\<lambda>m gb. fl_sub m (fl_div (fl_mult ga gb)
                       (fl_add (Fin 1) (fl_dot (X ! j) (fl_matvec (XTX_j st) (X ! j))))))
                       row (fl_matvec (XTX_j st) (X ! j)))
                   (XTX_j st) (fl_matvec (XTX_j st) (X ! j)),
          beta_j = map2 (\<lambda>b ga. fl_add b (fl_div (fl_mult ga (fl_sub (y ! j) (fl_dot (X ! j) (beta_j st))))
                       (fl_add (Fin 1) (fl_dot (X ! j) (fl_matvec (XTX_j st) (X ! j))))))
                    (beta_j st) (fl_matvec (XTX_j st) (X ! j)),
          recresid_arr = (recresid_arr st)[j := fl_sub (y ! j) (fl_dot (X ! j) (beta_j st))],
          recvar = (recvar st)[j := fl_add (Fin 1) (fl_dot (X ! j) (fl_matvec (XTX_j st) (X ! j)))]\<rparr>"
  unfolding recresid_step_def Let_def py_index_nat[OF assms] by simp

text \<open>After row \<open>j\<close> the two records have the length of the input and are untouched below \<open>span - 1\<close>.\<close>

lemma recresid_upto_inv:
  assumes "1 \<le> spn" "spn \<le> length X" "length y = length X"
    and "inv_fn (fl_gram (ncols X) (take spn X)) = Some M"
    and "spn - 1 \<le> j" "j < length X"
  shows "\<exists>st. recresid_upto inv_fn X y spn j = Inr st \<and>
           length (recresid_arr st) = length X \<and> length (recvar st) = length X \<and>
           (\<forall>i < spn - 1. recresid_arr st ! i = NaN \<and> recvar st ! i = NaN)"
  using assms(5,6)
proof (induction j rule: dec_induct)
  case base
  have "spn - 1 < spn" using assms(1) by simp
  from recresid_upto_init[OF this, of inv_fn X y] recresid_init_Inr[where inv_fn = inv_fn, OF assms(1-4)]
  show ?case using assms(1,2) by simp
next
  case (step j)
  then obtain st where st: "recresid_upto inv_fn X y spn j = Inr st"
    "length (recresid_arr st) = length X" "length (recvar st) = length X"
    "\<forall>i < spn - 1. recresid_arr st ! i = NaN \<and> recvar st ! i = NaN" by auto
  have sj: "spn \<le> Suc j" using step.hyps(1) by simp
  have jy: "Suc j < length y" using step.prems assms(3) by simp
  show ?case
    unfolding recresid_upto_Suc[OF sj] st(1) using st(2-4) step.hyps(1)
    by (simp add: recresid_step_Inr[OF jy])
qed

text \<open>Row \<open>j\<close> records the residual of \<open>y[j]\<close> against the coefficients held before it.\<close>

lemma recresid_upto_record:
  assumes "1 \<le> spn" "spn \<le> length X" "length y = length X"
    and "inv_fn (fl_gram (ncols X) (take spn X)) = Some M"
    and "spn \<le> j" "j < length X"
  shows "\<exists>prev st. recresid_upto inv_fn X y spn (j - 1) = Inr prev \<and>
           recresid_upto inv_fn X y spn j = Inr st \<and>
           recresid_arr st ! j = fl_sub (y ! j) (fl_dot (X ! j) (beta_j prev)) \<and>
           recvar st ! j = fl_add (Fin 1) (fl_dot (X ! j) (fl_matvec (XTX_j prev) (X ! j)))"
proof -
  from assms(1,5) obtain j' where j: "j = Suc j'" by (cases j) auto
  have "spn - 1 \<le> j'" "j' < length X" using assms(5,6) j by simp_all
  from recresid_upto_inv[where inv_fn = inv_fn, OF assms(1-4) this] obtain prev where
    p: "recresid_upto inv_fn X y spn j' = Inr prev"
    "length (recresid_arr prev) = length X" "length (recvar prev) = length X" by auto
  have sj: "spn \<le> Suc j'" using assms(5) j by simp
  have jy: "Suc j' < length y" using assms(6,3) j by simp
  show ?thesis
    unfolding j recresid_upto_Suc[OF sj] using p jy assms(3)
    by (simp add: recresid_step_Inr[OF jy])
qed

text \<open>A later row leaves the records of the earlier rows as they are.\<close>

lemma recresid_upto_frame:
  assumes "1 \<le> spn" "spn \<le> length X" "length y = length X"
    and "inv_fn (fl_gram (ncols X) (take spn X)) = Some M"
    and "spn - 1 \<le> j" "j \<le> j'" "j' < length X"
    and "recresid_upto inv_fn X y spn j = Inr st" "recresid_upto inv_fn X y spn j' = Inr st'"
  shows "\<forall>i \<le> j. recresid_arr st' ! i = recresid_arr st ! i \<and> recvar st' ! i = recvar st ! i"
  using assms(6,7,9)
proof (induction j' arbitrary: st' rule: dec_induct)
  case base
  then show ?case using assms(8) by simp
next
  case (step k)
  have "spn - 1 \<le> k" "k < length X" using assms(5) step.hyps(1) step.prems(1) by simp_all
  from recresid_upto_inv[where inv_fn = inv_fn, OF assms(1-4) this] obtain sk where
    sk: "recresid_upto inv_fn X y spn k = Inr sk" by auto
  have sj: "spn \<le> Suc k" using assms(5) step.hyps(1) by simp
  have jy: "Suc k < length y" using step.prems(1) assms(3) by simp
  have "st' = \<lparr>XTX_j = XTX_j st', beta_j = beta_j st',
               recresid_arr = (recresid_arr sk)[Suc k := fl_sub (y ! Suc k) (fl_dot (X ! Suc k) (beta_j sk))],
               recvar = (recvar sk)[Suc k := fl_add (Fin 1) (fl_dot (X ! Suc k) (fl_matvec (XTX_j sk) (X ! Suc k)))]\<rparr>"
    using step.prems(2) unfolding recresid_upto_Suc[OF sj] sk
    by (auto simp: recresid_step_Inr[OF jy])
  then have "recresid_arr st' = (recresid_arr sk)[Suc k := fl_sub (y ! Suc k) (fl_dot (X ! Suc k) (beta_j sk))]"
    "recvar st' = (recvar sk)[Suc k := fl_add (Fin 1) (fl_dot (X ! Suc k) (fl_matvec (XTX_j sk) (X ! Suc k)))]"
    by (metis rstate.select_convs(3), metis rstate.select_convs(4))
  with step.IH[OF \<open>k < length X\<close> sk] step.hyps(1) show ?case by simp
qed

lemma recresid_as_upto:
  assumes "0 < length X"
  shows "recresid inv_fn X y spn =
           bindE (recresid_upto inv_fn X y spn (length X - 1))
             (\<lambda>st. Inr (map2 (\<lambda>r v. fl_div r (fl_sqrt v)) (recresid_arr st) (recvar st)))"
proof -
  have "Suc (length X - 1) = length X" using assms by simp
  then show ?thesis
    unfolding recresid_def recresid_upto_def by (simp add: bindE_assoc)
qed

text \<open>
  Claim C7. For a dependent vector as long as the design matrix, a span of at least 1
  and below the number of rows, and an initial Gram matrix that \<open>np.linalg.inv\<close> inverts,
  \<open>recresid\<close> returns a sequence as long as the input; its entries before \<open>span - 1\<close> are
  the missing sentinel, and its entry at every later position \<open>j\<close> is the residual
  recorded for row \<open>j\<close> divided by the square root of the variance term recorded for row
  \<open>j\<close>. The record at \<open>span - 1\<close> comes from the initial fit; the record at a row
  \<open>j \<ge> span\<close> is the residual of \<open>y[j]\<close> against the coefficients held before the row, and
  one plus the quadratic form of the row in the inverse Gram matrix held before the row.
\<close>

theorem recresid_output:
  assumes "1 \<le> spn" and "spn < length X" and "length y = length X"
    and "inv_fn (fl_gram (ncols X) (take spn X)) = Some M"
  shows "\<exists>out. recresid inv_fn X y spn = Inr out \<and> length out = length X \<and>
     (\<forall>j < spn - 1. out ! j = NaN) \<and>
     (\<forall>j. spn - 1 \<le> j \<and> j < length X \<longrightarrow>
        (\<exists>st. recresid_upto inv_fn X y spn j = Inr st \<and>
              out ! j = fl_div (recresid_arr st ! j) (fl_sqrt (recvar st ! j)))) \<and>
     (\<exists>st0. recresid_upto inv_fn X y spn (spn - 1) = Inr st0 \<and> XTX_j st0 = M \<and>
        beta_j st0 = fl_matvec M (fl_XTY (ncols X) (take spn X) (take spn y)) \<and>
        recresid_arr st0 ! (spn - 1)
          = fl_sub (y ! (spn - 1)) (fl_dot (X ! (spn - 1)) (beta_j st0)) \<and>
        recvar st0 ! (spn - 1)
          = fl_add (Fin 1) (fl_dot (X ! (spn - 1)) (fl_matvec M (X ! (spn - 1))))) \<and>
     (\<forall>j. spn \<le> j \<and> j < length X \<longrightarrow>
        (\<exists>prev st. recresid_upto inv_fn X y spn (j - 1) = Inr prev \<and>
              recresid_upto inv_fn X y spn j = Inr st \<and>
              recresid_arr st ! j = fl_sub (y ! j) (fl_dot (X ! j) (beta_j prev)) \<and>
              recvar st ! j
                = fl_add (Fin 1) (fl_dot (X ! j) (fl_matvec (XTX_j prev) (X ! j)))))"
proof -
  let ?n = "length X"
  have sl: "spn \<le> ?n" and n0: "0 < ?n" and last: "spn - 1 \<le> ?n - 1" "?n - 1 < ?n"
    using assms(1,2) by linarith+
  note inv = recresid_upto_inv[where inv_fn = inv_fn, OF assms(1) sl assms(3,4)]
  note frame = recresid_upto_frame[where inv_fn = inv_fn, OF assms(1) sl assms(3,4)]
  from inv[OF last] obtain fin where
    fin: "recresid_upto inv_fn X y spn (?n - 1) = Inr fin"
    and lf: "length (recresid_arr fin) = ?n" "length (recvar fin) = ?n"
    and nf: "\<forall>i < spn - 1. recresid_arr fin ! i = NaN \<and> recvar fin ! i = NaN" by blast
  define out where "out = map2 (\<lambda>r v. fl_div r (fl_sqrt v)) (recresid_arr fin) (recvar fin)"
  have r: "recresid inv_fn X y spn = Inr out"
    unfolding recresid_as_upto[OF n0] fin out_def by simp
  have lo: "length out = ?n" using lf by (simp add: out_def)
  have on: "out ! j = fl_div (recresid_arr fin ! j) (fl_sqrt (recvar fin ! j))" if "j < ?n" for j
    using that lf by (simp add: out_def)
  have c1: "\<forall>j < spn - 1. out ! j = NaN"
  proof (intro allI impI)
    fix j assume j: "j < spn - 1"
    then have "j < ?n" using sl by simp
    from on[OF this] nf j show "out ! j = NaN" by simp
  qed
  have c2: "\<forall>j. spn - 1 \<le> j \<and> j < ?n \<longrightarrow>
        (\<exists>st. recresid_upto inv_fn X y spn j = Inr st \<and>
              out ! j = fl_div (recresid_arr st ! j) (fl_sqrt (recvar st ! j)))"
  proof (intro allI impI)
    fix j assume j: "spn - 1 \<le> j \<and> j < ?n"
    from inv[of j] j obtain st where st: "recresid_upto inv_fn X y spn j = Inr st" by blast
    have "j \<le> ?n - 1" using j by linarith
    from frame[OF _ this last(2) st fin] j
    have "recresid_arr fin ! j = recresid_arr st ! j" "recvar fin ! j = recvar st ! j" by simp_all
    with on[of j] j st
    show "\<exists>st. recresid_upto inv_fn X y spn j = Inr st \<and>
              out ! j = fl_div (recresid_arr st ! j) (fl_sqrt (recvar st ! j))" by simp
  qed
  have s1: "spn - 1 < spn" using assms(1) by simp
  have s2: "spn - 1 < length (replicate ?n NaN :: fl list)" using assms(1) sl by simp
  have c3: "\<exists>st0. recresid_upto inv_fn X y spn (spn - 1) = Inr st0 \<and> XTX_j st0 = M \<and>
        beta_j st0 = fl_matvec M (fl_XTY (ncols X) (take spn X) (take spn y)) \<and>
        recresid_arr st0 ! (spn - 1)
          = fl_sub (y ! (spn - 1)) (fl_dot (X ! (spn - 1)) (beta_j st0)) \<and>
        recvar st0 ! (spn - 1)
          = fl_add (Fin 1) (fl_dot (X ! (spn - 1)) (fl_matvec M (X ! (spn - 1))))"
    unfolding recresid_upto_init[OF s1]
      recresid_init_Inr[where inv_fn = inv_fn, OF assms(1) sl assms(3,4)]
    using s2 by (simp del: length_replicate)
  have c4: "\<forall>j. spn \<le> j \<and> j < ?n \<longrightarrow>
        (\<exists>prev st. recresid_upto inv_fn X y spn (j - 1) = Inr prev \<and>
              recresid_upto inv_fn X y spn j = Inr st \<and>
              recresid_arr st ! j = fl_sub (y ! j) (fl_dot (X ! j) (beta_j prev)) \<and>
              recvar st ! j
                = fl_add (Fin 1) (fl_dot (X ! j) (fl_matvec (XTX_j prev) (X ! j))))"
    using recresid_upto_record[where inv_fn = inv_fn, OF assms(1) sl assms(3,4)] by blast
  show ?thesis using r lo c1 c2 c3 c4 by blast
qed

lemma ex_gram_inverse:
  "inv2 (fl_gram (ncols [[Fin 1, Fin 0], [Fin 1, Fin 1], [Fin 1, Fin 2]])
           (take 2 [[Fin 1, Fin 0], [Fin 1, Fin 1], [Fin 1, Fin 2]]))
     = Some [[Fin 1, Fin (- 1)], [Fin (- 1), Fin 2]]"
  by (simp add: ncols_def fl_gram_def columns_def fl_dot_def)

theorem recresid_output_witness:
  "(1::nat) \<le> 2 \<and> 2 < length [[Fin 1, Fin 0], [Fin 1, Fin 1], [Fin 1, Fin 2]] \<and>
   length [Fin 0, Fin 1, Fin 3] = length [[Fin 1, Fin 0], [Fin 1, Fin 1], [Fin 1, Fin 2]] \<and>
   inv2 (fl_gram (ncols [[Fin 1, Fin 0], [Fin 1, Fin 1], [Fin 1, Fin 2]])
           (take 2 [[Fin 1, Fin 0], [Fin 1, Fin 1], [Fin 1, Fin 2]]))
     = Some [[Fin 1, Fin (- 1)], [Fin (- 1), Fin 2]] \<and>
   (\<exists>out. recresid inv2 [[Fin 1, Fin 0], [Fin 1, Fin 1], [Fin 1, Fin 2]]
             [Fin 0, Fin 1, Fin 3] 2 = Inr out \<and>
          length out = 3 \<and> out ! 0 = NaN)"
proof -
  let ?X = "[[Fin 1, Fin 0], [Fin 1, Fin 1], [Fin 1, Fin 2]]" and ?y = "[Fin 0, Fin 1, Fin 3]"
  have h: "(1::nat) \<le> 2" "2 < length ?X" "length ?y = length ?X" by simp_all
  from recresid_output[where inv_fn = inv2, OF h ex_gram_inverse]
  obtain out where o: "recresid inv2 ?X ?y 2 = Inr out" "length out = length ?X"
    "\<forall>j < 2 - 1. out ! j = NaN" by blast
  from o(3) have "out ! 0 = NaN" by simp
  with o(1,2) h ex_gram_inverse show ?thesis by simp
qed

section \<open>The rank-one update and the batch fit\<close>

lemma rdot_Nil [simp]: "rdot [] b = 0" "rdot a [] = 0"
  by (simp_all add: rdot_def)

lemma rdot_Cons [simp]: "rdot (a # as) (b # bs) = a * b + rdot as bs"
  by (simp add: rdot_def)

lemma vadd_Cons [simp]: "vadd (a # as) (b # bs) = (a + b) # vadd as bs"
  by (simp add: vadd_def)

lemma vadd_Nil [simp]: "vadd [] b = []" "vadd a [] = []"
  by (simp_all add: vadd_def)

lemma smul_Cons [simp]: "smul k (a # as) = k * a # smul k as"
  by (simp add: smul_def)

lemma smul_Nil [simp]: "smul k [] = []"
  by (simp add: smul_def)

lemma length_vadd [simp]: "length (vadd a b) = min (length a) (length b)"
  by (simp add: vadd_def)

lemma length_smul [simp]: "length (smul k a) = length a"
  by (simp add: smul_def)

lemma length_rmv [simp]: "length (rmv M v) = length M"
  by (simp add: rmv_def)

lemma rdot_comm: "rdot a b = rdot b a"
proof (induction a arbitrary: b)
  case Nil
  then show ?case by simp
next
  case (Cons x a)
  then show ?case by (cases b) simp_all
qed

lemma rdot_vadd_left:
  "length a = length b \<Longrightarrow> rdot (vadd a b) c = rdot a c + rdot b c"
proof (induction a b arbitrary: c rule: list_induct2)
  case Nil
  then show ?case by simp
next
  case (Cons x xs y ys)
  then show ?case by (cases c) (simp_all add: algebra_simps)
qed

lemma rdot_vadd_right:
  "length a = length b \<Longrightarrow> rdot c (vadd a b) = rdot c a + rdot c b"
  using rdot_vadd_left[of a b c] by (simp add: rdot_comm)

lemma rdot_smul_left: "rdot (smul k a) c = k * rdot a c"
proof (induction a arbitrary: c)
  case Nil
  then show ?case by simp
next
  case (Cons x a)
  then show ?case by (cases c) (simp_all add: algebra_simps)
qed

lemma rdot_smul_right: "rdot c (smul k a) = k * rdot c a"
  using rdot_smul_left[of k a c] by (simp add: rdot_comm)

lemma rmv_vadd:
  "length u = length v \<Longrightarrow> rmv M (vadd u v) = vadd (rmv M u) (rmv M v)"
  by (induction M) (simp_all add: rmv_def rdot_vadd_right)

lemma rmv_smul: "rmv M (smul k v) = smul k (rmv M v)"
  by (induction M) (simp_all add: rmv_def rdot_smul_right)

lemma vadd_comm: "vadd a b = vadd b a"
proof (induction a arbitrary: b)
  case Nil
  then show ?case by simp
next
  case (Cons x a)
  then show ?case by (cases b) simp_all
qed

lemma vadd_assoc: "vadd (vadd a b) c = vadd a (vadd b c)"
proof (induction a arbitrary: b c)
  case Nil
  then show ?case by simp
next
  case (Cons x a)
  then show ?case by (cases b; cases c) simp_all
qed

lemma smul_vadd: "smul k (vadd a b) = vadd (smul k a) (smul k b)"
proof (induction a arbitrary: b)
  case Nil
  then show ?case by simp
next
  case (Cons x a)
  then show ?case by (cases b) (simp_all add: algebra_simps)
qed

lemma smul_smul: "smul k (smul l a) = smul (k * l) a"
  by (induction a) simp_all

lemma vadd_smul_same: "vadd (smul a g) (smul b g) = smul (a + b) g"
  by (induction g) (simp_all add: algebra_simps)

lemma smul_zero: "smul 0 g = map (\<lambda>_. 0) g"
  by (induction g) simp_all

lemma vadd_zero_right: "length v = length g \<Longrightarrow> vadd v (map (\<lambda>_. 0) g) = v"
  by (induction v g rule: list_induct2) simp_all

lemma vadd_zero_left: "length v = length g \<Longrightarrow> vadd (map (\<lambda>_. 0) g) v = v"
  by (induction v g rule: list_induct2) simp_all

lemma rdot_zero_left: "rdot (map (\<lambda>_. 0) g) v = 0"
proof (induction g arbitrary: v)
  case Nil
  then show ?case by simp
next
  case (Cons x g)
  then show ?case by (cases v) simp_all
qed

text \<open>Rows of the design matrix of one length, and the Gram action on vectors of that length.\<close>

lemma length_gram_ap:
  "\<forall>x \<in> set Xs. length x = length v \<Longrightarrow> length (gram_ap Xs v) = length v"
  by (induction Xs) simp_all

lemma gram_ap_vadd:
  "\<forall>x \<in> set Xs. length x = length u \<Longrightarrow> length u = length v
     \<Longrightarrow> gram_ap Xs (vadd u v) = vadd (gram_ap Xs u) (gram_ap Xs v)"
proof (induction Xs)
  case Nil
  then show ?case by (simp add: vadd_def) (induction u v rule: list_induct2, simp_all)
next
  case (Cons x Xs)
  have "vadd (smul (rdot x u + rdot x v) x) (vadd (gram_ap Xs u) (gram_ap Xs v))
      = vadd (vadd (smul (rdot x u) x) (gram_ap Xs u)) (vadd (smul (rdot x v) x) (gram_ap Xs v))"
    (is "?l = ?r")
  proof -
    have "?l = vadd (vadd (smul (rdot x u) x) (smul (rdot x v) x)) (vadd (gram_ap Xs u) (gram_ap Xs v))"
      by (simp add: vadd_smul_same)
    also have "\<dots> = vadd (smul (rdot x u) x) (vadd (smul (rdot x v) x) (vadd (gram_ap Xs u) (gram_ap Xs v)))"
      by (simp add: vadd_assoc)
    also have "vadd (smul (rdot x v) x) (vadd (gram_ap Xs u) (gram_ap Xs v))
        = vadd (gram_ap Xs u) (vadd (smul (rdot x v) x) (gram_ap Xs v))"
      by (metis vadd_assoc vadd_comm)
    finally show ?thesis by (simp add: vadd_assoc)
  qed
  with Cons show ?case by (simp add: rdot_vadd_right)
qed

lemma gram_ap_smul:
  "gram_ap Xs (smul k v) = smul k (gram_ap Xs v)"
proof (induction Xs)
  case Nil
  then show ?case by (induction v) simp_all
next
  case (Cons x Xs)
  then show ?case by (simp add: rdot_smul_right smul_vadd smul_smul)
qed

lemma gram_ap_append:
  "\<forall>x \<in> set Xs. length x = length v \<Longrightarrow> length x = length v
     \<Longrightarrow> gram_ap (Xs @ [x]) v = vadd (gram_ap Xs v) (smul (rdot x v) x)"
proof (induction Xs)
  case Nil
  then show ?case by (simp add: vadd_zero_right vadd_zero_left)
next
  case (Cons a Xs)
  then show ?case by (simp add: vadd_assoc)
qed

lemma gram_sym:
  "\<forall>x \<in> set Xs. length x = length u \<Longrightarrow> length u = length v
     \<Longrightarrow> rdot u (gram_ap Xs v) = rdot (gram_ap Xs u) v"
proof (induction Xs)
  case Nil
  then show ?case by (simp add: rdot_zero_left rdot_comm[of u])
next
  case (Cons x Xs)
  then have "length (gram_ap Xs v) = length v" "length (gram_ap Xs u) = length u"
    by (simp_all add: length_gram_ap)
  with Cons show ?case
    by (simp add: rdot_vadd_right rdot_vadd_left rdot_smul_right rdot_smul_left rdot_comm)
qed

lemma gram_pos:
  "\<forall>x \<in> set Xs. length x = length w \<Longrightarrow> 0 \<le> rdot (gram_ap Xs w) w"
proof (induction Xs)
  case Nil
  then show ?case by (simp add: rdot_zero_left)
next
  case (Cons x Xs)
  then have "length (gram_ap Xs w) = length w" by (simp add: length_gram_ap)
  with Cons show ?case
    by (simp add: rdot_vadd_left rdot_smul_left rdot_comm[of w x])
qed

lemma xty_append:
  "length Xs = length ys \<Longrightarrow> \<forall>r \<in> set Xs. length r = p \<Longrightarrow> length x = p
     \<Longrightarrow> xty p (Xs @ [x]) (ys @ [y]) = vadd (xty p Xs ys) (smul y x)"
proof (induction Xs ys rule: list_induct2)
  case Nil
  then show ?case
    using vadd_zero_right[of "smul y x" x] vadd_zero_left[of "smul y x" x]
    by (simp add: replicate_length_same[symmetric] map_replicate_const)
next
  case (Cons a Xs b ys)
  then show ?case by (simp add: vadd_assoc)
qed

lemma length_xty:
  "\<forall>r \<in> set Xs. length r = p \<Longrightarrow> length (xty p Xs ys) = p"
proof (induction p Xs ys rule: xty.induct)
  case (1 p x Xs y ys)
  then show ?case by simp
qed simp_all

lemma rdot_rank1:
  "length row = length g
     \<Longrightarrow> rdot (map2 (\<lambda>m gb. m - ga * gb / f) row g) v = rdot row v - ga * rdot g v / f"
proof (induction row g arbitrary: v rule: list_induct2)
  case Nil
  then show ?case by simp
next
  case (Cons m row gb g)
  then show ?case by (cases v) (simp_all add: algebra_simps diff_divide_distrib add_divide_distrib)
qed

lemma rmv_rank1_gen:
  "length Ms = length gs \<Longrightarrow> \<forall>row \<in> set Ms. length row = length g0
     \<Longrightarrow> rmv (map2 (\<lambda>row ga. map2 (\<lambda>m gb. m - ga * gb / f) row g0) Ms gs) v
         = vadd (rmv Ms v) (smul (- (rdot g0 v) / f) gs)"
proof (induction Ms gs rule: list_induct2)
  case Nil
  then show ?case by (simp add: rmv_def)
next
  case (Cons row Ms ga gs)
  then have "rmv (map2 (\<lambda>row ga. map2 (\<lambda>m gb. m - ga * gb / f) row g0) Ms gs) v
         = vadd (rmv Ms v) (smul (- (rdot g0 v) / f) gs)" by simp
  moreover have "rdot (map2 (\<lambda>m gb. m - ga * gb / f) row g0) v = rdot row v - ga * rdot g0 v / f"
    using Cons.prems by (simp add: rdot_rank1)
  ultimately show ?case by (simp add: rmv_def algebra_simps)
qed

lemma rmv_rank1:
  assumes "is_mat p M" "length g = p"
  shows "rmv (map2 (\<lambda>row ga. map2 (\<lambda>m gb. m - ga * gb / f) row g) M g) v
           = vadd (rmv M v) (smul (- (rdot g v) / f) g)"
  using assms rmv_rank1_gen[of M g g f v] by (simp add: is_mat_def)

lemma beta_update: "map2 (\<lambda>bi ga. bi + ga * r / f) b g = vadd b (smul (r / f) g)"
proof (induction b arbitrary: g)
  case Nil
  then show ?case by simp
next
  case (Cons x b)
  then show ?case by (cases g) simp_all
qed

lemma vadd_smul3:
  "length v = length g \<Longrightarrow> a + b = 0 \<Longrightarrow> vadd (vadd v (smul a g)) (smul b g) = v"
proof -
  assume l: "length v = length g" and z: "a + b = 0"
  have "vadd (vadd v (smul a g)) (smul b g) = vadd v (smul (a + b) g)"
    by (simp add: vadd_assoc vadd_smul_same)
  then show ?thesis using l z by (simp add: smul_zero vadd_zero_right)
qed

lemma vadd_smul3':
  "length v = length g \<Longrightarrow> a + b = c \<Longrightarrow> vadd (vadd v (smul a g)) (smul b g) = vadd v (smul c g)"
  by (simp add: vadd_assoc vadd_smul_same)

text \<open>The inverse of a symmetric operator is symmetric, and the quadratic form is not negative.\<close>

lemma rinv_sym:
  assumes inv: "rinv p Xs ys (M, b)" and rows: "\<forall>x \<in> set Xs. length x = p"
    and u: "length u = p" and v: "length v = p"
  shows "rdot u (rmv M v) = rdot (rmv M u) v"
proof -
  from inv have m: "length M = p"
    and i2: "\<And>w. length w = p \<Longrightarrow> gram_ap Xs (rmv M w) = w"
    by (simp_all add: rinv_def is_mat_def)
  have lu: "length (rmv M u) = p" and lv: "length (rmv M v) = p" using m by simp_all
  have "rdot u (rmv M v) = rdot (gram_ap Xs (rmv M u)) (rmv M v)" using i2[OF u] by simp
  also have "\<dots> = rdot (rmv M u) (gram_ap Xs (rmv M v))"
    using gram_sym[of Xs "rmv M u" "rmv M v"] rows lu lv by simp
  also have "\<dots> = rdot (rmv M u) v" using i2[OF v] by simp
  finally show ?thesis .
qed

lemma rinv_pos:
  assumes inv: "rinv p Xs ys (M, b)" and rows: "\<forall>x \<in> set Xs. length x = p"
    and x: "length x = p"
  shows "0 \<le> rdot x (rmv M x)"
proof -
  from inv have m: "length M = p"
    and i2: "\<And>w. length w = p \<Longrightarrow> gram_ap Xs (rmv M w) = w"
    by (simp_all add: rinv_def is_mat_def)
  have "rdot x (rmv M x) = rdot (gram_ap Xs (rmv M x)) (rmv M x)" using i2[OF x] by simp
  also have "0 \<le> \<dots>" using gram_pos[of Xs "rmv M x"] rows m by simp
  finally show ?thesis .
qed

lemma rstep_inv:
  assumes inv: "rinv p Xs ys (M, b)" and rows: "\<forall>r \<in> set Xs. length r = p"
    and x: "length x = p" and ly: "length Xs = length ys"
  shows "rinv p (Xs @ [x]) (ys @ [yj]) (rstep x yj (M, b)) \<and> 1 \<le> 1 + rdot x (rmv M x)"
proof -
  define g where "g = rmv M x"
  define f where "f = 1 + rdot x g"
  define r where "r = yj - rdot x b"
  define M' where "M' = map2 (\<lambda>row ga. map2 (\<lambda>m gb. m - ga * gb / f) row g) M g"
  define b' where "b' = map2 (\<lambda>bi ga. bi + ga * r / f) b g"
  define c where "c = xty p Xs ys"
  have step: "rstep x yj (M, b) = (M', b')"
    by (simp add: rstep_def Let_def M'_def b'_def g_def f_def r_def)
  from inv have all: "is_mat p M \<and> length b = p \<and>
     (\<forall>v. length v = p \<longrightarrow> rmv M (gram_ap Xs v) = v \<and> gram_ap Xs (rmv M v) = v) \<and>
     b = rmv M c"
    unfolding rinv_def c_def fst_conv snd_conv .
  then have mat: "is_mat p M" and lb: "length b = p"
    and i1: "\<And>w. length w = p \<Longrightarrow> rmv M (gram_ap Xs w) = w"
    and i2: "\<And>w. length w = p \<Longrightarrow> gram_ap Xs (rmv M w) = w"
    and bc: "b = rmv M c"
    by blast+
  from mat have lM: "length M = p" unfolding is_mat_def by simp
  have lg: "length g = p" using lM by (simp add: g_def)
  have lc: "length c = p" unfolding c_def by (rule length_xty[OF rows])
  have f1: "1 \<le> f" unfolding f_def g_def using rinv_pos[OF inv rows x] by simp
  then have f0: "f \<noteq> 0" by simp
  have xg: "rdot x g = f - 1" "rdot g x = f - 1" by (simp_all add: f_def rdot_comm)
  note sym = rinv_sym[OF inv rows]
  have lG: "length (gram_ap Xs w) = p" if "length w = p" for w
    using length_gram_ap[of Xs w] rows that by simp
  have M'ap: "rmv M' w = vadd (rmv M w) (smul (- (rdot g w) / f) g)" for w
    unfolding M'_def by (rule rmv_rank1[OF mat lg])
  have G'ap: "gram_ap (Xs @ [x]) w = vadd (gram_ap Xs w) (smul (rdot x w) x)" if "length w = p" for w
    using gram_ap_append[of Xs w x] rows x that by simp
  have matM': "is_mat p M'"
    unfolding M'_def is_mat_def using mat lg by (auto simp: is_mat_def set_zip)
  have lb': "length b' = p" using lb lg by (simp add: b'_def)
  have I1: "rmv M' (gram_ap (Xs @ [x]) v) = v" if v: "length v = p" for v
  proof -
    let ?w = "vadd (gram_ap Xs v) (smul (rdot x v) x)"
    have Mw: "rmv M ?w = vadd v (smul (rdot x v) g)"
      using lG[OF v] x by (simp add: rmv_vadd rmv_smul i1[OF v] g_def)
    have "rdot g (gram_ap Xs v) = rdot x (rmv M (gram_ap Xs v))"
      unfolding g_def using sym[OF x lG[OF v]] by simp
    then have "rdot g (gram_ap Xs v) = rdot x v" using i1[OF v] by simp
    then have gw: "rdot g ?w = rdot x v * f"
      using lG[OF v] x by (simp add: rdot_vadd_right rdot_smul_right xg algebra_simps)
    have "rmv M' ?w = vadd (vadd v (smul (rdot x v) g)) (smul (- (rdot x v * f) / f) g)"
      unfolding M'ap Mw gw ..
    also have "\<dots> = v"
      by (rule vadd_smul3) (use v lg f0 in simp_all)
    finally show ?thesis unfolding G'ap[OF v] .
  qed
  have I2: "gram_ap (Xs @ [x]) (rmv M' v) = v" if v: "length v = p" for v
  proof -
    define k where "k = - (rdot g v) / f"
    let ?u = "vadd (rmv M v) (smul k g)"
    have lu: "length ?u = p" using lM lg by simp
    have lMv: "length (rmv M v) = p" using lM by simp
    have "gram_ap Xs (smul k g) = smul k x"
      unfolding gram_ap_smul g_def using i2[OF x] by simp
    then have Gu: "gram_ap Xs ?u = vadd v (smul k x)"
      using gram_ap_vadd[of Xs "rmv M v" "smul k g"] rows lMv lg i2[OF v] by simp
    have "rdot x (rmv M v) = rdot g v" unfolding g_def using sym[OF x v] by simp
    then have xu: "rdot x ?u = rdot g v + k * (f - 1)"
      using lMv lg by (simp add: rdot_vadd_right rdot_smul_right xg)
    have "gram_ap (Xs @ [x]) ?u = vadd (vadd v (smul k x)) (smul (rdot g v + k * (f - 1)) x)"
      unfolding G'ap[OF lu] Gu xu ..
    also have "\<dots> = v"
    proof (rule vadd_smul3)
      show "length v = length x" using v x by simp
      show "k + (rdot g v + k * (f - 1)) = 0"
        unfolding k_def using f0 by (simp add: field_simps)
    qed
    finally show ?thesis unfolding M'ap k_def .
  qed
  have I3: "b' = rmv M' (xty p (Xs @ [x]) (ys @ [yj]))"
  proof -
    let ?c' = "vadd c (smul yj x)"
    have c': "xty p (Xs @ [x]) (ys @ [yj]) = ?c'"
      unfolding c_def by (rule xty_append[OF ly rows x])
    have Mc': "rmv M ?c' = vadd b (smul yj g)"
      using lc x by (simp add: rmv_vadd rmv_smul bc g_def)
    have "rdot g c = rdot x (rmv M c)" unfolding g_def using sym[OF x lc] by simp
    then have gc: "rdot g ?c' = rdot x b + yj * (f - 1)"
      using lc x by (simp add: rdot_vadd_right rdot_smul_right xg bc)
    have "rmv M' ?c' = vadd (vadd b (smul yj g)) (smul (- (rdot x b + yj * (f - 1)) / f) g)"
      unfolding M'ap Mc' gc ..
    also have "\<dots> = vadd b (smul (r / f) g)"
    proof (rule vadd_smul3')
      show "length b = length g" using lb lg by simp
      show "yj + - (rdot x b + yj * (f - 1)) / f = r / f"
        unfolding r_def using f0 by (simp add: field_simps)
    qed
    finally show ?thesis unfolding c' b'_def beta_update by simp
  qed
  have "rinv p (Xs @ [x]) (ys @ [yj]) (M', b')"
    unfolding rinv_def using matM' lb' I1 I2 I3 by simp
  then show ?thesis unfolding step using f1 by (simp add: f_def g_def)
qed

lemma vadd_map: "vadd (map f xs) (map g xs) = map (\<lambda>a. f a + g a) xs"
  by (induction xs) simp_all

lemma smul_map: "smul k (map f xs) = map (\<lambda>a. k * f a) xs"
  by (induction xs) simp_all

lemma map_nth_upt: "length x = p \<Longrightarrow> map (\<lambda>a. x ! a) [0..<p] = x"
  using map_nth[of x] by simp

lemma rXTY_xty:
  assumes "length Xs = length ys" "\<forall>r \<in> set Xs. length r = p"
  shows "rXTY p Xs ys = xty p Xs ys"
  using assms
proof (induction Xs ys rule: list_induct2)
  case Nil
  then show ?case by (simp add: rXTY_def columns_def map_replicate_const)
next
  case (Cons x Xs y ys)
  then have lx: "length x = p" and ih: "rXTY p Xs ys = xty p Xs ys" by simp_all
  have "rXTY p (x # Xs) (y # ys)
          = map (\<lambda>a. y * x ! a + rdot (map (\<lambda>r. r ! a) Xs) ys) [0..<p]"
    by (simp add: rXTY_def columns_def o_def mult.commute)
  also have "\<dots> = vadd (smul y (map (\<lambda>a. x ! a) [0..<p])) (map (\<lambda>a. rdot (map (\<lambda>r. r ! a) Xs) ys) [0..<p])"
    by (simp add: smul_map vadd_map)
  also have "\<dots> = vadd (smul y x) (rXTY p Xs ys)"
    by (simp add: map_nth_upt[OF lx] rXTY_def columns_def o_def)
  finally show ?case using ih by simp
qed

lemma rdot_map_add:
  "rdot (map (\<lambda>b. f b + g b) bs) v = rdot (map f bs) v + rdot (map g bs) v"
  using rdot_vadd_left[of "map f bs" "map g bs" v] by (simp add: vadd_map)

lemma rdot_map_mult:
  "rdot (map (\<lambda>b. k * f b) bs) v = k * rdot (map f bs) v"
  using rdot_smul_left[of k "map f bs" v] by (simp add: smul_map)

lemma rdot_replicate_zero: "rdot (replicate n 0) v = 0"
proof (induction n arbitrary: v)
  case 0
  then show ?case by simp
next
  case (Suc n)
  then show ?case by (cases v) simp_all
qed

lemma rmv_rgram:
  assumes "\<forall>r \<in> set Xs. length r = p" "length v = p"
  shows "rmv (rgram p Xs) v = gram_ap Xs v"
  using assms
proof (induction Xs)
  case Nil
  have "rmv (rgram p []) v = map (\<lambda>a. rdot (map (\<lambda>b. 0) [0..<p]) v) [0..<p]"
    by (simp add: rmv_def rgram_def columns_def o_def)
  also have "\<dots> = replicate p 0"
    by (simp add: rdot_replicate_zero map_replicate_const)
  finally show ?case using Nil by (simp add: map_replicate_const)
next
  case (Cons x Xs)
  then have lx: "length x = p" and ih: "rmv (rgram p Xs) v = gram_ap Xs v" by simp_all
  let ?col = "\<lambda>a. map (\<lambda>r. r ! a) Xs"
  have "rmv (rgram p (x # Xs)) v
          = map (\<lambda>a. rdot (map (\<lambda>b. x ! a * x ! b + rdot (?col a) (?col b)) [0..<p]) v) [0..<p]"
    by (simp add: rmv_def rgram_def columns_def o_def)
  also have "\<dots> = map (\<lambda>a. rdot x v * x ! a + rdot (map (\<lambda>b. rdot (?col a) (?col b)) [0..<p]) v) [0..<p]"
    by (simp add: rdot_map_add rdot_map_mult map_nth_upt[OF lx] mult.commute)
  also have "\<dots> = vadd (smul (rdot x v) (map (\<lambda>a. x ! a) [0..<p]))
                       (map (\<lambda>a. rdot (map (\<lambda>b. rdot (?col a) (?col b)) [0..<p]) v) [0..<p])"
    by (simp add: smul_map vadd_map)
  also have "\<dots> = vadd (smul (rdot x v) x) (rmv (rgram p Xs) v)"
    by (simp add: map_nth_upt[OF lx] rmv_def rgram_def columns_def o_def)
  finally show ?case using ih by simp
qed

lemma is_mat_rgram: "is_mat p (rgram p Xs)"
  by (simp add: is_mat_def rgram_def columns_def)

lemma rinv_init:
  assumes "is_inverse p M0 (rgram p X0)" "\<forall>r \<in> set X0. length r = p" "length X0 = length y0"
  shows "rinv p X0 y0 (M0, rmv M0 (rXTY p X0 y0))"
proof -
  from assms(1) have m: "is_mat p M0"
    and i: "\<And>v. length v = p \<Longrightarrow> rmv M0 (rmv (rgram p X0) v) = v \<and> rmv (rgram p X0) (rmv M0 v) = v"
    unfolding is_inverse_def by blast+
  have lm: "length (rmv M0 v) = p" for v using m by (simp add: is_mat_def)
  have "rmv M0 (gram_ap X0 v) = v \<and> gram_ap X0 (rmv M0 v) = v" if v: "length v = p" for v
    using i[OF v] rmv_rgram[OF assms(2) v] rmv_rgram[OF assms(2) lm[of v]] by simp
  then show ?thesis
    unfolding rinv_def using m lm rXTY_xty[OF assms(3,2)] by simp
qed

text \<open>The normal equations have the coefficients of the invariant as their only solution.\<close>

lemma rinv_normal_equations:
  assumes "rinv p Xs ys (M, b)" "\<forall>r \<in> set Xs. length r = p" "length Xs = length ys"
  shows "rmv (rgram p Xs) b = rXTY p Xs ys"
    and "\<And>b'. length b' = p \<Longrightarrow> rmv (rgram p Xs) b' = rXTY p Xs ys \<Longrightarrow> b' = b"
proof -
  from assms(1) have all: "is_mat p M \<and> length b = p \<and>
     (\<forall>v. length v = p \<longrightarrow> rmv M (gram_ap Xs v) = v \<and> gram_ap Xs (rmv M v) = v) \<and>
     b = rmv M (xty p Xs ys)"
    unfolding rinv_def fst_conv snd_conv .
  then have lb: "length b = p"
    and i1: "\<And>w. length w = p \<Longrightarrow> rmv M (gram_ap Xs w) = w"
    and i2: "\<And>w. length w = p \<Longrightarrow> gram_ap Xs (rmv M w) = w"
    and bc: "b = rmv M (xty p Xs ys)"
    by blast+
  have lc: "length (xty p Xs ys) = p" by (rule length_xty[OF assms(2)])
  have xy: "rXTY p Xs ys = xty p Xs ys" by (rule rXTY_xty[OF assms(3,2)])
  show "rmv (rgram p Xs) b = rXTY p Xs ys"
    unfolding rmv_rgram[OF assms(2) lb] xy using i2[OF lc] bc by simp
  fix b' assume l: "length b' = p" and e: "rmv (rgram p Xs) b' = rXTY p Xs ys"
  from e have "gram_ap Xs b' = xty p Xs ys" unfolding rmv_rgram[OF assms(2) l] xy .
  then have "rmv M (gram_ap Xs b') = b" using bc by simp
  then show "b' = b" using i1[OF l] by simp
qed

lemma sse_expand:
  assumes "length Xs = length ys" "\<forall>r \<in> set Xs. length r = p" "length b = p" "length d = p"
  shows "sse Xs ys (vadd b d)
           = sse Xs ys b - 2 * (rdot d (xty p Xs ys) - rdot d (gram_ap Xs b))
             + rdot (gram_ap Xs d) d"
  using assms
proof (induction Xs ys rule: list_induct2)
  case Nil
  then show ?case by (simp add: sse_def rdot_zero_left rdot_comm[of d] rdot_replicate_zero)
next
  case (Cons x Xs y ys)
  then have lx: "length x = p" and rows: "\<forall>r \<in> set Xs. length r = p" by simp_all
  have lG: "length (gram_ap Xs w) = p" if "length w = p" for w
    using length_gram_ap[of Xs w] rows that by simp
  have lc: "length (xty p Xs ys) = p" by (rule length_xty[OF rows])
  have ih: "sse Xs ys (vadd b d)
           = sse Xs ys b - 2 * (rdot d (xty p Xs ys) - rdot d (gram_ap Xs b))
             + rdot (gram_ap Xs d) d"
    using Cons by simp
  have s: "sse (x # Xs) ys' b' = (hd ys' - rdot x b')\<^sup>2 + sse Xs (tl ys') b'" if "ys' \<noteq> []" for ys' b'
    using that by (cases ys') (simp_all add: sse_def)
  have e1: "rdot x (vadd b d) = rdot x b + rdot x d"
    using Cons.prems by (simp add: rdot_vadd_right)
  have e2: "rdot d (xty p (x # Xs) (y # ys)) = y * rdot x d + rdot d (xty p Xs ys)"
    using lx lc Cons.prems by (simp add: rdot_vadd_right rdot_smul_right rdot_comm[of d x])
  have e3: "rdot d (gram_ap (x # Xs) b) = rdot x b * rdot x d + rdot d (gram_ap Xs b)"
    using lx lG[OF Cons.prems(2)] Cons.prems
    by (simp add: rdot_vadd_right rdot_smul_right rdot_comm[of d x])
  have e4: "rdot (gram_ap (x # Xs) d) d = rdot x d * rdot x d + rdot (gram_ap Xs d) d"
    using lx lG[OF Cons.prems(3)] Cons.prems
    by (simp add: rdot_vadd_left rdot_smul_left)
  show ?case
    unfolding s[of "y # ys", simplified] e1 e2 e3 e4 ih
    by (simp add: power2_eq_square algebra_simps)
qed

lemma vadd_diff: "length b' = length b \<Longrightarrow> vadd b (vadd b' (smul (- 1) b)) = b'"
  by (induction b' b rule: list_induct2) simp_all

lemma rinv_least_squares:
  assumes "rinv p Xs ys (M, b)" "\<forall>r \<in> set Xs. length r = p" "length Xs = length ys"
    and "length b' = p"
  shows "sse Xs ys b \<le> sse Xs ys b'"
proof -
  from assms(1) have all: "is_mat p M \<and> length b = p \<and>
     (\<forall>v. length v = p \<longrightarrow> rmv M (gram_ap Xs v) = v \<and> gram_ap Xs (rmv M v) = v) \<and>
     b = rmv M (xty p Xs ys)"
    unfolding rinv_def fst_conv snd_conv .
  then have lb: "length b = p"
    and i2: "\<And>w. length w = p \<Longrightarrow> gram_ap Xs (rmv M w) = w"
    and bc: "b = rmv M (xty p Xs ys)"
    by blast+
  have lc: "length (xty p Xs ys) = p" by (rule length_xty[OF assms(2)])
  have ne: "gram_ap Xs b = xty p Xs ys" using i2[OF lc] bc by simp
  define d where "d = vadd b' (smul (- 1) b)"
  have ld: "length d = p" using assms(4) lb by (simp add: d_def)
  have b': "b' = vadd b d" unfolding d_def using vadd_diff[of b' b] assms(4) lb by simp
  have "sse Xs ys b' = sse Xs ys b + rdot (gram_ap Xs d) d"
    unfolding b' sse_expand[OF assms(3,2) lb ld] ne by simp
  moreover have "0 \<le> rdot (gram_ap Xs d) d"
    using gram_pos[of Xs d] assms(2) ld by simp
  ultimately show ?thesis by simp
qed

lemma rrows_append: "rrows X y (js @ [j]) s = rstep (X ! j) (y ! j) (rrows X y js s)"
  by (induction js arbitrary: s) simp_all

text \<open>After row \<open>j\<close> the invariant holds for the rows up to \<open>j\<close>, and no variance term is below 1.\<close>

lemma rinv_run:
  assumes "rinv p (take spn Xr) (take spn yr) s0" "\<forall>r \<in> set Xr. length r = p"
    and "length yr = length Xr" and "1 \<le> spn" and "spn - 1 \<le> j" and "j < length Xr"
  shows "rinv p (take (Suc j) Xr) (take (Suc j) yr) (rrows Xr yr [spn..<Suc j] s0)"
  using assms(5,6)
proof (induction j rule: dec_induct)
  case base
  then show ?case using assms(1,4) by simp
next
  case (step j)
  let ?s = "rrows Xr yr [spn..<Suc j] s0"
  have j: "j < length Xr" "Suc j < length Xr" "Suc j < length yr" using step.prems assms(3) by simp_all
  from step have inv: "rinv p (take (Suc j) Xr) (take (Suc j) yr) (fst ?s, snd ?s)" by simp
  have rows: "\<forall>r \<in> set (take (Suc j) Xr). length r = p"
    using assms(2) by (auto dest: in_set_takeD)
  have lx: "length (Xr ! Suc j) = p" using assms(2) j by simp
  have ly: "length (take (Suc j) Xr) = length (take (Suc j) yr)" using assms(3) by simp
  have t: "take (Suc (Suc j)) Xr = take (Suc j) Xr @ [Xr ! Suc j]"
    "take (Suc (Suc j)) yr = take (Suc j) yr @ [yr ! Suc j]"
    using j by (simp_all add: take_Suc_conv_app_nth)
  have u: "[spn..<Suc (Suc j)] = [spn..<Suc j] @ [Suc j]" using step.hyps(1) by simp
  from rstep_inv[OF inv rows lx ly, of "yr ! Suc j"]
  show ?case unfolding t u rrows_append by simp
qed

lemma rinv_run_variance:
  assumes "rinv p (take spn Xr) (take spn yr) s0" "\<forall>r \<in> set Xr. length r = p"
    and "length yr = length Xr" and "1 \<le> spn" and "spn - 1 \<le> j" and "Suc j < length Xr"
  shows "1 \<le> 1 + rdot (Xr ! Suc j) (rmv (fst (rrows Xr yr [spn..<Suc j] s0)) (Xr ! Suc j))"
proof -
  let ?s = "rrows Xr yr [spn..<Suc j] s0"
  have j: "j < length Xr" using assms(6) by simp
  from rinv_run[OF assms(1-5) j] have inv: "rinv p (take (Suc j) Xr) (take (Suc j) yr) (fst ?s, snd ?s)"
    by simp
  have rows: "\<forall>r \<in> set (take (Suc j) Xr). length r = p"
    using assms(2) by (auto dest: in_set_takeD)
  have lx: "length (Xr ! Suc j) = p" using assms(2,6) by simp
  have ly: "length (take (Suc j) Xr) = length (take (Suc j) yr)" using assms(3) by simp
  from rstep_inv[OF inv rows lx ly, of "yr ! Suc j"] show ?thesis by simp
qed

lemma fl_dot_Fin: "fl_dot (map Fin a) (map Fin b) = Fin (rdot a b)"
proof (induction a arbitrary: b)
  case Nil
  then show ?case by (simp add: fl_dot_def)
next
  case (Cons a as)
  show ?case
  proof (cases b)
    case Nil
    then show ?thesis by (simp add: fl_dot_def)
  next
    case (Cons c cs)
    from Cons.IH[of cs] show ?thesis unfolding Cons by (simp add: fl_dot_def)
  qed
qed

lemma fl_matvec_Fin: "fl_matvec (map (map Fin) M) (map Fin v) = map Fin (rmv M v)"
  by (simp add: fl_matvec_def rmv_def fl_dot_Fin)

lemma columns_Fin:
  assumes "\<forall>r \<in> set Xs. length r = p"
  shows "columns p (map (map Fin) Xs) = map (map Fin) (columns p Xs)"
  using assms by (simp add: columns_def)

lemma fl_gram_Fin:
  assumes "\<forall>r \<in> set Xs. length r = p"
  shows "fl_gram p (map (map Fin) Xs) = map (map Fin) (rgram p Xs)"
  unfolding fl_gram_def rgram_def columns_Fin[OF assms] by (simp add: fl_dot_Fin)

lemma fl_XTY_Fin:
  assumes "\<forall>r \<in> set Xs. length r = p"
  shows "fl_XTY p (map (map Fin) Xs) (map Fin ys) = map Fin (rXTY p Xs ys)"
  unfolding fl_XTY_def rXTY_def columns_Fin[OF assms] by (simp add: fl_dot_Fin)

lemma map2_Fin:
  assumes "\<And>a b. f (Fin a) (Fin b) = Fin (g a b)"
  shows "map2 f (map Fin as) (map Fin bs) = map Fin (map2 g as bs)"
proof (induction as arbitrary: bs)
  case Nil
  then show ?case by simp
next
  case (Cons a as)
  then show ?case by (cases bs) (simp_all add: assms)
qed

lemma map2_Fin_rows:
  assumes "\<And>row a. f (map Fin row) (Fin a) = map Fin (g row a)"
  shows "map2 f (map (map Fin) M) (map Fin bs) = map (map Fin) (map2 g M bs)"
proof (induction M arbitrary: bs)
  case Nil
  then show ?case by simp
next
  case (Cons a as)
  then show ?case by (cases bs) (simp_all add: assms)
qed

text \<open>On finite values the body of the loop is the rank-one update, as long as the variance
  term is not zero.\<close>

lemma recresid_step_Fin:
  assumes "XTX_j st = map (map Fin) M" "beta_j st = map Fin b"
    and "X ! j = map Fin x" "y ! j = Fin yj" "j < length y"
    and "1 + rdot x (rmv M x) \<noteq> 0"
  shows "\<exists>st'. recresid_step X y j st = Inr st' \<and>
           XTX_j st' = map (map Fin) (fst (rstep x yj (M, b))) \<and>
           beta_j st' = map Fin (snd (rstep x yj (M, b)))"
proof -
  define f where "f = 1 + rdot x (rmv M x)"
  have f: "f \<noteq> 0" using assms(6) by (simp add: f_def)
  have ft: "fl_add (Fin 1) (fl_dot (X ! j) (fl_matvec (XTX_j st) (X ! j))) = Fin f"
    unfolding assms fl_matvec_Fin fl_dot_Fin by (simp add: f_def)
  have g: "fl_matvec (XTX_j st) (X ! j) = map Fin (rmv M x)"
    unfolding assms fl_matvec_Fin ..
  have r: "fl_sub (y ! j) (fl_dot (X ! j) (beta_j st)) = Fin (yj - rdot x b)"
    unfolding assms fl_dot_Fin by (simp add: fl_sub_def)
  have e1: "fl_sub (Fin m) (fl_div (fl_mult (Fin ga) (Fin gb)) (Fin f)) = Fin (m - ga * gb / f)"
    for m ga gb using f by (simp add: fl_sub_def)
  have e2: "fl_add (Fin bi) (fl_div (fl_mult (Fin ga) (Fin r')) (Fin f)) = Fin (bi + ga * r' / f)"
    for bi ga r' using f by simp
  have row: "map2 (\<lambda>m gb. fl_sub m (fl_div (fl_mult (Fin ga) gb) (Fin f))) (map Fin row) (map Fin (rmv M x))
        = map Fin (map2 (\<lambda>m gb. m - ga * gb / f) row (rmv M x))" for row ga
    by (rule map2_Fin) (rule e1)
  have M': "map2 (\<lambda>row ga. map2 (\<lambda>m gb. fl_sub m (fl_div (fl_mult ga gb) (Fin f))) row (map Fin (rmv M x)))
              (map (map Fin) M) (map Fin (rmv M x))
        = map (map Fin) (map2 (\<lambda>row ga. map2 (\<lambda>m gb. m - ga * gb / f) row (rmv M x)) M (rmv M x))"
    by (rule map2_Fin_rows) (rule row)
  have b': "map2 (\<lambda>bi ga. fl_add bi (fl_div (fl_mult ga (Fin (yj - rdot x b))) (Fin f)))
              (map Fin b) (map Fin (rmv M x))
        = map Fin (map2 (\<lambda>bi ga. bi + ga * (yj - rdot x b) / f) b (rmv M x))"
    by (rule map2_Fin) (rule e2)
  have ft': "fl_add (Fin 1) (fl_dot (X ! j) (map Fin (rmv M x))) = Fin f"
    using ft unfolding g .
  have st: "rstep x yj (M, b) =
      (map2 (\<lambda>row ga. map2 (\<lambda>m gb. m - ga * gb / f) row (rmv M x)) M (rmv M x),
       map2 (\<lambda>bi ga. bi + ga * (yj - rdot x b) / f) b (rmv M x))"
    by (simp add: rstep_def Let_def f_def)
  show ?thesis
    unfolding recresid_step_Inr[OF assms(5)] g ft' r st
    unfolding assms(1,2) M' b'
    by simp
qed

lemma ncols_Fin:
  assumes "\<forall>r \<in> set Xr. length r = p" "0 < length Xr"
  shows "ncols (map (map Fin) Xr) = p"
  using assms by (cases Xr) (simp_all add: ncols_def)

text \<open>On finite data and with an exact inverse of the first Gram matrix, the variables of the
  loop after row \<open>j\<close> are the image of the rank-one updates on reals.\<close>

lemma recresid_upto_Fin:
  assumes X: "X = map (map Fin) Xr" and y: "y = map Fin yr"
    and rows: "\<forall>r \<in> set Xr. length r = p" and ly: "length yr = length Xr"
    and spn: "1 \<le> spn" "spn \<le> length Xr"
    and inv: "inv_fn (fl_gram (ncols X) (take spn X)) = Some (map (map Fin) M0)"
    and M0: "is_inverse p M0 (rgram p (take spn Xr))"
    and j: "spn - 1 \<le> j" "j < length Xr"
  shows "\<exists>st. recresid_upto inv_fn X y spn j = Inr st \<and>
     XTX_j st = map (map Fin)
        (fst (rrows Xr yr [spn..<Suc j] (M0, rmv M0 (rXTY p (take spn Xr) (take spn yr))))) \<and>
     beta_j st = map Fin
        (snd (rrows Xr yr [spn..<Suc j] (M0, rmv M0 (rXTY p (take spn Xr) (take spn yr)))))"
  using j
proof (induction j rule: dec_induct)
  case base
  have n0: "0 < length Xr" using spn by linarith
  have p: "ncols (map (map Fin) Xr) = p" by (rule ncols_Fin[OF rows n0])
  have lX: "spn \<le> length X" "length y = length X" using spn ly by (simp_all add: X y)
  have rows0: "\<forall>r \<in> set (take spn Xr). length r = p"
    using rows by (auto dest: in_set_takeD)
  have b0: "fl_matvec (map (map Fin) M0) (fl_XTY (ncols X) (take spn X) (take spn y))
      = map Fin (rmv M0 (rXTY p (take spn Xr) (take spn yr)))"
    unfolding X y p take_map fl_XTY_Fin[OF rows0] fl_matvec_Fin ..
  have "spn - 1 < spn" using spn by simp
  from recresid_upto_init[OF this, of inv_fn X y]
    recresid_init_Inr[where inv_fn = inv_fn, OF spn(1) lX inv]
  show ?case using spn(1) b0 by simp
next
  case (step j)
  let ?ini = "(M0, rmv M0 (rXTY p (take spn Xr) (take spn yr)))"
  let ?s = "rrows Xr yr [spn..<Suc j] ?ini"
  have jl: "j < length Xr" using step.prems by simp
  from step.IH[OF jl] obtain st where
    st: "recresid_upto inv_fn X y spn j = Inr st"
    "XTX_j st = map (map Fin) (fst ?s)" "beta_j st = map Fin (snd ?s)" by blast
  have rows0: "\<forall>r \<in> set (take spn Xr). length r = p"
    using rows by (auto dest: in_set_takeD)
  have l0: "length (take spn Xr) = length (take spn yr)" using ly by simp
  have i0: "rinv p (take spn Xr) (take spn yr) ?ini"
    by (rule rinv_init[OF M0 rows0 l0])
  have f: "1 + rdot (Xr ! Suc j) (rmv (fst ?s) (Xr ! Suc j)) \<noteq> 0"
    using rinv_run_variance[OF i0 rows ly spn(1) step.hyps(1) step.prems] by simp
  have xj: "X ! Suc j = map Fin (Xr ! Suc j)" "y ! Suc j = Fin (yr ! Suc j)" "Suc j < length y"
    using step.prems ly by (simp_all add: X y)
  from recresid_step_Fin[OF st(2,3) xj f] obtain st' where
    st': "recresid_step X y (Suc j) st = Inr st'"
    "XTX_j st' = map (map Fin) (fst (rstep (Xr ! Suc j) (yr ! Suc j) (fst ?s, snd ?s)))"
    "beta_j st' = map Fin (snd (rstep (Xr ! Suc j) (yr ! Suc j) (fst ?s, snd ?s)))" by blast
  have u: "[spn..<Suc (Suc j)] = [spn..<Suc j] @ [Suc j]" using step.hyps(1) by simp
  have le: "spn \<le> Suc j" using step.hyps(1) by simp
  show ?case
    unfolding recresid_upto_Suc[OF le] st(1) u rrows_append using st' by simp
qed

lemma ex_is_inverse:
  "is_inverse 2 [[1, - 1], [- 1, 2]] (rgram 2 (take 2 [[1, 0], [1, 1], [1, 2]]))"
proof -
  have g: "rgram 2 (take 2 [[1, 0], [1, 1], [1, 2]]) = [[2, 1], [1, 1]]"
    by (simp add: rgram_def columns_def numeral_2_eq_2)
  have "rmv [[1, - 1], [- 1, 2]] (rmv [[2, 1], [1, 1]] v) = v \<and>
        rmv [[2, 1], [1, 1]] (rmv [[1, - 1], [- 1, 2]] v) = v" if "length v = 2" for v :: "real list"
  proof -
    from that obtain a b where v: "v = [a, b]"
      by (cases v; cases "tl v"; cases "tl (tl v)") auto
    show ?thesis unfolding v by (simp add: rmv_def)
  qed
  then show ?thesis unfolding is_inverse_def g by (simp add: is_mat_def)
qed

text \<open>
  Claim C2. Take a design matrix and a dependent vector of finite values (no missing entry),
  the vector as long as the matrix, a span of at least 1, and let the inversion of the Gram
  matrix of the first \<open>span\<close> rows return its exact inverse (so those rows have full column
  rank). Then after any row \<open>j\<close> with \<open>span \<le> j < n\<close> the loop of \<open>recresid\<close> holds a
  coefficient vector that is the batch least-squares fit of rows 0 to \<open>j\<close> inclusive, over
  exact arithmetic: it solves the normal equations of those rows, it is their only
  solution, and no coefficient vector has a smaller sum of squared residuals.
\<close>

theorem recresid_beta_batch:
  assumes "X = map (map Fin) Xr" and "y = map Fin yr"
    and "\<forall>r \<in> set Xr. length r = p" and "length yr = length Xr"
    and "1 \<le> spn" and "spn \<le> j" and "j < length Xr"
    and "inv_fn (fl_gram (ncols X) (take spn X)) = Some (map (map Fin) M0)"
    and "is_inverse p M0 (rgram p (take spn Xr))"
  shows "\<exists>st b. recresid_upto inv_fn X y spn j = Inr st \<and> beta_j st = map Fin b \<and> length b = p \<and>
     rmv (rgram p (take (Suc j) Xr)) b = rXTY p (take (Suc j) Xr) (take (Suc j) yr) \<and>
     (\<forall>b'. length b' = p \<and>
           rmv (rgram p (take (Suc j) Xr)) b' = rXTY p (take (Suc j) Xr) (take (Suc j) yr)
           \<longrightarrow> b' = b) \<and>
     (\<forall>b'. length b' = p \<longrightarrow>
           sse (take (Suc j) Xr) (take (Suc j) yr) b \<le> sse (take (Suc j) Xr) (take (Suc j) yr) b')"
proof -
  let ?ini = "(M0, rmv M0 (rXTY p (take spn Xr) (take spn yr)))"
  let ?s = "rrows Xr yr [spn..<Suc j] ?ini"
  let ?Xj = "take (Suc j) Xr" and ?yj = "take (Suc j) yr"
  have sl: "spn \<le> length Xr" and j1: "spn - 1 \<le> j" using assms(6,7) by simp_all
  from recresid_upto_Fin[where inv_fn = inv_fn, OF assms(1-5) sl assms(8,9) j1 assms(7)]
  obtain st where st: "recresid_upto inv_fn X y spn j = Inr st" "beta_j st = map Fin (snd ?s)"
    by blast
  have rows0: "\<forall>r \<in> set (take spn Xr). length r = p"
    and rowsj: "\<forall>r \<in> set ?Xj. length r = p"
    using assms(3) by (auto dest: in_set_takeD)
  have l0: "length (take spn Xr) = length (take spn yr)"
    and lj: "length ?Xj = length ?yj" using assms(4) by simp_all
  have "rinv p (take spn Xr) (take spn yr) ?ini"
    by (rule rinv_init[OF assms(9) rows0 l0])
  from rinv_run[OF this assms(3,4,5) j1 assms(7)]
  have inv: "rinv p ?Xj ?yj (fst ?s, snd ?s)" by simp
  then have lb: "length (snd ?s) = p" unfolding rinv_def fst_conv snd_conv by blast
  note ne = rinv_normal_equations[OF inv rowsj lj]
  note ls = rinv_least_squares[OF inv rowsj lj]
  from st lb ne ls show ?thesis by blast
qed

theorem recresid_beta_batch_witness:
  "(1::nat) \<le> 2 \<and> (2::nat) \<le> 2 \<and> 2 < length [[1, 0], [1, 1], [1, 2::real]] \<and>
   inv2 (fl_gram (ncols [[Fin 1, Fin 0], [Fin 1, Fin 1], [Fin 1, Fin 2]])
           (take 2 [[Fin 1, Fin 0], [Fin 1, Fin 1], [Fin 1, Fin 2]]))
     = Some (map (map Fin) [[1, - 1], [- 1, 2]]) \<and>
   is_inverse 2 [[1, - 1], [- 1, 2]] (rgram 2 (take 2 [[1, 0], [1, 1], [1, 2]])) \<and>
   (\<exists>st. recresid_upto inv2 [[Fin 1, Fin 0], [Fin 1, Fin 1], [Fin 1, Fin 2]]
            [Fin 0, Fin 1, Fin 3] 2 2 = Inr st \<and>
         beta_j st = [Fin (- 1 / 6), Fin (3 / 2)])"
proof -
  let ?Xr = "[[1, 0], [1, 1], [1, 2::real]]" and ?yr = "[0, 1, 3::real]"
  let ?X = "[[Fin 1, Fin 0], [Fin 1, Fin 1], [Fin 1, Fin 2]]" and ?y = "[Fin 0, Fin 1, Fin 3]"
  have h: "?X = map (map Fin) ?Xr" "?y = map Fin ?yr" "\<forall>r \<in> set ?Xr. length r = 2"
    "length ?yr = length ?Xr" "(1::nat) \<le> 2" "(2::nat) \<le> 2" "2 < length ?Xr"
    by simp_all
  have i: "inv2 (fl_gram (ncols ?X) (take 2 ?X)) = Some (map (map Fin) [[1, - 1], [- 1, 2]])"
    using ex_gram_inverse by simp
  have t: "take (Suc 2) ?Xr = ?Xr" "take (Suc 2) ?yr = ?yr" by simp_all
  from recresid_beta_batch[where inv_fn = inv2, OF h i ex_is_inverse]
  obtain st b where st: "recresid_upto inv2 ?X ?y 2 2 = Inr st" "beta_j st = map Fin b"
    and u: "\<forall>b'. length b' = 2 \<and> rmv (rgram 2 ?Xr) b' = rXTY 2 ?Xr ?yr \<longrightarrow> b' = b"
    unfolding t by blast
  have "length [- 1 / 6, 3 / 2 :: real] = 2 \<and>
        rmv (rgram 2 ?Xr) [- 1 / 6, 3 / 2] = rXTY 2 ?Xr ?yr"
    by (simp add: rgram_def rXTY_def columns_def rmv_def numeral_2_eq_2)
  with u have "[- 1 / 6, 3 / 2] = b" by blast
  with st have "\<exists>st. recresid_upto inv2 ?X ?y 2 2 = Inr st \<and> beta_j st = [Fin (- 1 / 6), Fin (3 / 2)]"
    by auto
  with h(5-7) i ex_is_inverse show ?thesis by blast
qed

text \<open>
  A design matrix of full column rank whose first \<open>span\<close> rows are rank deficient: the Gram
  matrix of all three rows has an inverse, that of the first two has none, and the call
  ends in \<open>LinAlgError\<close> before any row of the loop.
\<close>

theorem recresid_full_rank_counterexample:
  "inv2 (fl_gram 2 [[Fin 1, Fin 0], [Fin 1, Fin 0], [Fin 1, Fin 1]])
     = Some [[Fin (1 / 2), Fin (- 1 / 2)], [Fin (- 1 / 2), Fin (3 / 2)]] \<and>
   inv2 (fl_gram 2 (take 2 [[Fin 1, Fin 0], [Fin 1, Fin 0], [Fin 1, Fin 1]])) = None \<and>
   recresid_upto inv2 [[Fin 1, Fin 0], [Fin 1, Fin 0], [Fin 1, Fin 1]]
      [Fin 0, Fin 1, Fin 3] 2 2 = Inl LinAlgError \<and>
   recresid inv2 [[Fin 1, Fin 0], [Fin 1, Fin 0], [Fin 1, Fin 1]]
      [Fin 0, Fin 1, Fin 3] 2 = Inl LinAlgError"
proof -
  let ?X = "[[Fin 1, Fin 0], [Fin 1, Fin 0], [Fin 1, Fin 1]]"
  have g: "fl_gram 2 (take 2 ?X) = [[Fin 2, Fin 0], [Fin 0, Fin 0]]"
    by (simp add: fl_gram_def columns_def fl_dot_def numeral_2_eq_2)
  have n: "ncols ?X = 2" by (simp add: ncols_def)
  have i: "recresid_init inv2 ?X [Fin 0, Fin 1, Fin 3] 2 = Inl LinAlgError"
    unfolding recresid_init_def Let_def n g by simp
  have a: "inv2 (fl_gram 2 ?X) = Some [[Fin (1 / 2), Fin (- 1 / 2)], [Fin (- 1 / 2), Fin (3 / 2)]]"
    by (simp add: fl_gram_def columns_def fl_dot_def numeral_2_eq_2)
  have b: "inv2 (fl_gram 2 (take 2 ?X)) = None" unfolding g by simp
  show ?thesis
    unfolding recresid_upto_def recresid_def i using a b by (simp add: bindE_Inl)
qed

end
